theory Spec2Isabelle
  imports Complex_Main
begin

section \<open>The torrent download server (rsd2v2.go): shared maps, worker goroutine, handlers\<close>

text \<open>
  The program keeps four package-level maps (\<open>progressMap\<close>, \<open>downloadMap\<close>, \<open>fileMap\<close>,
  \<open>completedFiles\<close>) behind one mutex \<open>mu\<close>. \<open>downloadHandler\<close> registers a session and
  starts a goroutine that runs \<open>downloadTorrent\<close>, which calls \<open>downloadFile\<close> for every
  file of the torrent; \<open>cancelHandler\<close> sends on the session's unbuffered channel;
  \<open>progressHandler\<close> and \<open>completedHandler\<close> read the maps.

  The model is a small-step interleaving semantics: the state is the record \<open>server\<close>,
  every atomic piece of a source function is a HOL function on it, and \<open>step\<close> runs one
  event chosen by the scheduler and the environment (an HTTP request, the result of an
  engine or file-system call in a worker, the resumption of a blocked handler).
  \<open>step\<close> returns \<open>None\<close> where the source blocks (on \<open>mu.Lock()\<close> or on the channel send).
  \<open>main.go\<close> is the same program without \<open>completedFiles\<close>; its \<open>downloadFile\<close> loop is
  the one modelled here, statement for statement.
\<close>

subsection \<open>int64 and float64 arithmetic of the progress computation\<close>

text \<open>
  \<open>DownloadedBytes\<close> and \<open>TotalSizeBytes\<close> are \<open>int64\<close>: an \<open>int\<close> wrapped into
  \<open>[-2^63, 2^63)\<close> after every addition.
\<close>

definition wrap64 :: "int \<Rightarrow> int" where
  "wrap64 x = (x + 2 ^ 63) mod 2 ^ 64 - 2 ^ 63"

text \<open>
  The percentage is \<open>int(float64(d) / float64(t) * 100)\<close>. A \<open>float64\<close> is modelled by its
  value: \<open>Finite m e\<close> stands for \<open>m * 2^e\<close>, every operation rounds the exact result to
  53 significant bits, to nearest, ties to even (IEEE 754 binary64). The exponent range is
  not modelled: the values that occur lie between \<open>2^-64\<close> and \<open>2^70\<close>, far from overflow
  and from the subnormal numbers. A zero is \<open>Finite 0 e\<close>; the only zero divisor that
  occurs is \<open>float64(0)\<close>, which is \<open>+0\<close>.
\<close>

datatype float64 = Finite int int | PosInf | NegInf | NaN

function bits :: "int \<Rightarrow> int" where
  \<comment> \<open>the number of binary digits of a positive integer\<close>
  "bits a = (if a \<le> 0 then 0 else 1 + bits (a div 2))"
  by pat_completeness auto
termination
  by (relation "measure nat") auto

declare bits.simps [simp del]

definition round_even :: "int \<Rightarrow> int \<Rightarrow> int" where
  \<comment> \<open>the integer nearest to \<open>a / b\<close> for \<open>0 \<le> a\<close>, \<open>0 < b\<close>; a tie goes to the even one\<close>
  "round_even a b =
     (let q = a div b; r = a mod b
      in if 2 * r < b then q
         else if b < 2 * r then q + 1
         else if even q then q else q + 1)"

definition scaled :: "int \<Rightarrow> int \<Rightarrow> int \<Rightarrow> int \<times> int" where
  \<comment> \<open>\<open>a / (b * 2^k)\<close> as a fraction of integers\<close>
  "scaled a b k = (a * 2 ^ nat (- k), b * 2 ^ nat k)"

definition rn53_pos :: "int \<Rightarrow> int \<Rightarrow> int \<times> int" where
  \<comment> \<open>\<open>a / b\<close> with \<open>0 < a\<close>, \<open>0 < b\<close>, rounded to 53 bits: mantissa and exponent\<close>
  "rn53_pos a b =
     (let k = bits a - bits b - 53;
          k' = (if fst (scaled a b k) div snd (scaled a b k) < 2 ^ 53 then k else k + 1)
      in (round_even (fst (scaled a b k')) (snd (scaled a b k')), k'))"

definition rn53 :: "int \<Rightarrow> int \<Rightarrow> float64" where
  \<comment> \<open>\<open>a / b\<close> for \<open>0 < b\<close> and any sign of \<open>a\<close>: rounding is symmetric\<close>
  "rn53 a b =
     (if a = 0 then Finite 0 0
      else Finite (sgn a * fst (rn53_pos \<bar>a\<bar> b)) (snd (rn53_pos \<bar>a\<bar> b)))"

definition float64_of_int :: "int \<Rightarrow> float64" where
  "float64_of_int x = rn53 x 1"

definition num_of :: "int \<Rightarrow> int \<Rightarrow> int" where
  "num_of m e = (if 0 \<le> e then m * 2 ^ nat e else m)"

definition den_of :: "int \<Rightarrow> int" where
  "den_of e = (if 0 \<le> e then 1 else 2 ^ nat (- e))"

fun fdiv :: "float64 \<Rightarrow> float64 \<Rightarrow> float64" where
  "fdiv (Finite m1 e1) (Finite m2 e2) =
     (if m2 = 0 then (if m1 = 0 then NaN else if 0 < m1 then PosInf else NegInf)
      else rn53 (sgn m2 * num_of m1 e1 * den_of e2) (\<bar>num_of m2 e2\<bar> * den_of e1))"
| "fdiv NaN _ = NaN"
| "fdiv _ NaN = NaN"
| "fdiv PosInf (Finite m2 e2) = (if 0 \<le> m2 then PosInf else NegInf)"
| "fdiv NegInf (Finite m2 e2) = (if 0 \<le> m2 then NegInf else PosInf)"
| "fdiv (Finite m1 e1) PosInf = Finite 0 0"
| "fdiv (Finite m1 e1) NegInf = Finite 0 0"
| "fdiv _ _ = NaN"

fun fmul :: "float64 \<Rightarrow> float64 \<Rightarrow> float64" where
  "fmul (Finite m1 e1) (Finite m2 e2) =
     rn53 (num_of m1 e1 * num_of m2 e2) (den_of e1 * den_of e2)"
| "fmul NaN _ = NaN"
| "fmul _ NaN = NaN"
| "fmul PosInf (Finite m2 e2) = (if m2 = 0 then NaN else if 0 < m2 then PosInf else NegInf)"
| "fmul NegInf (Finite m2 e2) = (if m2 = 0 then NaN else if 0 < m2 then NegInf else PosInf)"
| "fmul (Finite m1 e1) PosInf = (if m1 = 0 then NaN else if 0 < m1 then PosInf else NegInf)"
| "fmul (Finite m1 e1) NegInf = (if m1 = 0 then NaN else if 0 < m1 then NegInf else PosInf)"
| "fmul PosInf PosInf = PosInf"
| "fmul NegInf NegInf = PosInf"
| "fmul _ _ = NegInf"

text \<open>
  \<open>int(f)\<close> truncates towards zero. For a value that an \<open>int\<close> (64 bits) cannot hold, and
  for an infinity or a NaN, Go leaves the result to the implementation: the parameter
  \<open>cvt\<close> is the platform's answer.
\<close>

definition float64_to_int :: "(float64 \<Rightarrow> int) \<Rightarrow> float64 \<Rightarrow> int" where
  "float64_to_int cvt f =
     (case f of
        Finite m e \<Rightarrow>
          (let t = sgn m * (\<bar>num_of m e\<bar> div den_of e)
           in if - (2 ^ 63) \<le> t \<and> t < 2 ^ 63 then t else cvt f)
      | _ \<Rightarrow> cvt f)"

text \<open>The real number that \<open>Finite m e\<close> stands for.\<close>

definition valof :: "int \<Rightarrow> int \<Rightarrow> real" where
  "valof m e = real_of_int (num_of m e) / real_of_int (den_of e)"

subsection \<open>ProgressResponse and the progress update of downloadFile\<close>

record ProgressResponse =
  Progress :: int
  DownloadedBytes :: int
  TotalSizeBytes :: int

definition zeroProgress :: ProgressResponse where
  "zeroProgress = \<lparr>Progress = 0, DownloadedBytes = 0, TotalSizeBytes = 0\<rparr>"

definition percent :: "(float64 \<Rightarrow> int) \<Rightarrow> int \<Rightarrow> int \<Rightarrow> int" where
  \<comment> \<open>\<open>int(float64(d) / float64(t) * 100)\<close>\<close>
  "percent cvt d t =
     float64_to_int cvt
       (fmul (fdiv (float64_of_int d) (float64_of_int t)) (float64_of_int 100))"

definition advance :: "(float64 \<Rightarrow> int) \<Rightarrow> ProgressResponse \<Rightarrow> nat \<Rightarrow> ProgressResponse" where
  \<comment> \<open>the two assignments under \<open>if n > 0\<close> in \<open>downloadFile\<close>\<close>
  "advance cvt p n =
     (let d = wrap64 (DownloadedBytes p + int n)
      in p\<lparr>DownloadedBytes := d, Progress := percent cvt d (TotalSizeBytes p)\<rparr>)"

subsection \<open>The shared state\<close>

text \<open>
  \<open>mu\<close> is held across events only by a \<open>cancelHandler\<close> call: every other critical section
  is one event. \<open>CancelSending sid c\<close>: the call for session \<open>sid\<close> holds \<open>mu\<close> and is
  blocked in \<open>cancelChan <- true\<close> on channel \<open>c\<close>. \<open>CancelSent sid\<close>: its send has been
  received, the rest of the handler has not run yet.
\<close>

datatype lock = Unlocked | CancelSending string nat | CancelSent string

text \<open>
  A goroutine started by \<open>downloadHandler\<close> is identified by the number \<open>k\<close> allocated for it:
  \<open>k\<close> is the address of its \<open>progress\<close> record in \<open>heap\<close>, the name of its \<open>cancelChan\<close>
  and its key in \<open>goroutines\<close> (the three variables its closure captures).
  Its program counter: \<open>Resolve\<close> (\<open>downloadTorrent\<close> up to \<open>t.GotInfo()\<close>), \<open>Open\<close>
  (\<open>downloadFile\<close> before its loop), \<open>Loop\<close> (at the \<open>select\<close>), \<open>Complete\<close> (before the
  \<open>mu.Lock()\<close> that precedes \<open>completedFiles[sessionID] = ...\<close>), \<open>Cleanup\<close> (before the
  \<open>mu.Lock()\<close> of the closure's three \<open>delete\<close>s), \<open>Exited\<close>.
\<close>

datatype pc = Resolve | Open | Loop | Complete | Cleanup | Exited

record tfile =
  fpath :: string
  flength :: int

record worker =
  w_sid :: string
  w_uri :: string
  w_pc :: pc
  w_files :: "tfile list"
  w_pos :: int

text \<open>
  \<open>fpath\<close> is \<open>filepath.Join(downloadDir, file.Path())\<close>, \<open>flength\<close> is \<open>file.Length()\<close>.
  \<open>w_files\<close> holds the files of \<open>range t.Files()\<close> that are not finished, the current one
  first; \<open>w_pos\<close> counts the bytes the current file's reader has returned.
\<close>

datatype logline =
    AttemptingToCreate string
  | ErrorDeletingFile string
  | CompletedFileAdded string
  | ErrorDownloading
  | DownloadedSuccessfully

record server =
  progressMap :: "string \<rightharpoonup> nat"
  downloadMap :: "string \<rightharpoonup> nat"
  fileMap :: "string \<rightharpoonup> string"
  completedFiles :: "string \<rightharpoonup> string"
  mu :: lock
  heap :: "nat \<Rightarrow> ProgressResponse"
  nxt :: nat
  goroutines :: "nat \<rightharpoonup> worker"
  disk :: "string set"
  logs :: "logline list"

definition init :: server where
  "init = \<lparr>progressMap = Map.empty, downloadMap = Map.empty, fileMap = Map.empty,
            completedFiles = Map.empty, mu = Unlocked, heap = (\<lambda>_. zeroProgress), nxt = 0,
            goroutines = Map.empty, disk = {}, logs = []\<rparr>"

subsection \<open>Events and responses\<close>

datatype rerr = NoErr | EOF | OtherErr

text \<open>
  What the environment hands to a goroutine at a step: the outcome of the engine's
  resolution (\<open>NewClient\<close>, \<open>AddMagnet\<close>, \<open>GotInfo\<close>, \<open>t.Files()\<close>), of \<open>MkdirAll\<close> and
  \<open>os.Create\<close>, of one \<open>reader.Read(buffer)\<close> (\<open>n\<close>, \<open>err\<close>) together with whether
  \<open>outFile.Write\<close> succeeds, or nothing (\<open>Go\<close>).
\<close>

datatype input =
    Resolved "tfile list"
  | ResolveFailed
  | Opened
  | MkdirFailed
  | CreateFailed
  | ReadResult nat rerr bool
  | Go

datatype event =
    ReqProgress string
  | ReqDownload string string
  | ReqCancel string
  | ReqCompleted
  | CancelResume
  | Worker nat input

datatype response =
    HttpError nat string
  | StatusOK
  | ProgressJSON ProgressResponse
  | CompletedJSON "string \<rightharpoonup> string"
  | Waiting
  | Internal

subsection \<open>The goroutine: downloadTorrent and downloadFile\<close>

definition removeFile :: "string \<Rightarrow> server \<Rightarrow> server" where
  \<comment> \<open>\<open>if err := os.Remove(filePath); err != nil { log.Printf("Error deleting file: %v", err) }\<close>\<close>
  "removeFile p s =
     (if p \<in> disk s then s\<lparr>disk := disk s - {p}\<rparr>
      else s\<lparr>logs := logs s @ [ErrorDeletingFile p]\<rparr>)"

definition returned :: "nat \<Rightarrow> worker \<Rightarrow> bool \<Rightarrow> server \<Rightarrow> server" where
  \<comment> \<open>\<open>downloadTorrent\<close> returns (\<open>failed\<close>: with an error); the closure logs the outcome\<close>
  "returned k w failed s =
     s\<lparr>goroutines := (goroutines s)(k \<mapsto> w\<lparr>w_pc := Cleanup\<rparr>),
       logs := logs s @ [if failed then ErrorDownloading else DownloadedSuccessfully]\<rparr>"

definition totalSize :: "tfile list \<Rightarrow> int" where
  \<comment> \<open>\<open>for _, file := range t.Files() { totalSize += file.Length() }\<close>\<close>
  "totalSize fs = foldl (\<lambda>t f. wrap64 (t + flength f)) 0 fs"

definition downloadTorrent_resolve :: "nat \<Rightarrow> worker \<Rightarrow> input \<Rightarrow> server \<Rightarrow> server option" where
  "downloadTorrent_resolve k w inp s =
     (case inp of
        ResolveFailed \<Rightarrow> Some (returned k w True s)
      | Resolved fs \<Rightarrow>
          Some (s\<lparr>heap := (heap s)(k := (heap s k)\<lparr>TotalSizeBytes := totalSize fs\<rparr>),
                  goroutines := (goroutines s)
                    (k \<mapsto> w\<lparr>w_files := fs, w_pc := (if fs = [] then Complete else Open)\<rparr>)\<rparr>)
      | _ \<Rightarrow> None)"

definition downloadFile_open :: "nat \<Rightarrow> worker \<Rightarrow> input \<Rightarrow> server \<Rightarrow> server option" where
  \<comment> \<open>\<open>downloadFile\<close> from \<open>fileMap[sessionID] = filePath\<close> (written without \<open>mu\<close>) to the loop\<close>
  "downloadFile_open k w inp s =
     (case w_files w of
        [] \<Rightarrow> None
      | f # fs \<Rightarrow>
          (let s1 = s\<lparr>fileMap := (fileMap s)(w_sid w \<mapsto> fpath f)\<rparr>;
               s2 = s1\<lparr>logs := logs s1 @ [AttemptingToCreate (fpath f)]\<rparr>
           in case inp of
                MkdirFailed \<Rightarrow> Some (returned k w True s1)
              | CreateFailed \<Rightarrow> Some (returned k w True s2)
              | Opened \<Rightarrow>
                  Some (s2\<lparr>disk := insert (fpath f) (disk s2),
                           goroutines := (goroutines s2)(k \<mapsto> w\<lparr>w_pc := Loop, w_pos := 0\<rparr>)\<rparr>)
              | _ \<Rightarrow> None))"

definition file_done :: "nat \<Rightarrow> worker \<Rightarrow> server \<Rightarrow> server" where
  \<comment> \<open>\<open>downloadFile\<close> returned \<open>nil\<close>: the loop of \<open>downloadTorrent\<close> takes the next file\<close>
  "file_done k w s =
     s\<lparr>goroutines := (goroutines s)
          (k \<mapsto> w\<lparr>w_files := tl (w_files w),
                    w_pc := (if tl (w_files w) = [] then Complete else Open)\<rparr>)\<rparr>"

definition cancel_pending :: "nat \<Rightarrow> server \<Rightarrow> bool" where
  \<comment> \<open>a sender is blocked on channel \<open>k\<close>: \<open>case <-cancelChan\<close> is ready\<close>
  "cancel_pending k s = (case mu s of CancelSending sid c \<Rightarrow> c = k | _ \<Rightarrow> False)"

definition downloadFile_iter ::
  "(float64 \<Rightarrow> int) \<Rightarrow> nat \<Rightarrow> worker \<Rightarrow> input \<Rightarrow> server \<Rightarrow> server option" where
  \<comment> \<open>one pass of \<open>for { select { case <-cancelChan: ... default: ... } }\<close>\<close>
  "downloadFile_iter cvt k w inp s =
     (case w_files w of
        [] \<Rightarrow> None
      | f # fs \<Rightarrow>
          (case inp of
             Go \<Rightarrow>
               (case mu s of
                  CancelSending sid c \<Rightarrow>
                    if c = k
                    then Some (file_done k w ((removeFile (fpath f) s)\<lparr>mu := CancelSent sid\<rparr>))
                    else None
                | _ \<Rightarrow> None)
           | ReadResult n err wok \<Rightarrow>
               if cancel_pending k s then None
               else
                 (let s1 = (if 0 < n then s\<lparr>heap := (heap s)(k := advance cvt (heap s k) n)\<rparr>
                            else s);
                      w1 = w\<lparr>w_pos := w_pos w + int n\<rparr>;
                      s2 = s1\<lparr>goroutines := (goroutines s1)(k \<mapsto> w1)\<rparr>
                  in if 0 < n \<and> \<not> wok then Some (returned k w1 True s2)
                     else if err = EOF then Some s2
                     else if err = OtherErr then Some (returned k w1 True s2)
                     else Some s2)
           | _ \<Rightarrow> None))"

text \<open>
  In the \<open>default\<close> branch \<open>break\<close> stands directly inside the \<open>select\<close>, so on \<open>io.EOF\<close> it
  leaves the \<open>select\<close> only and the \<open>for\<close> runs again: the goroutine stays at \<open>Loop\<close>.
  The \<open>cancelChan\<close> branch removes the file and returns \<open>nil\<close>, as a finished file would.
\<close>

definition downloadTorrent_complete :: "nat \<Rightarrow> worker \<Rightarrow> server \<Rightarrow> server option" where
  \<comment> \<open>\<open>mu.Lock(); completedFiles[sessionID] = fileMap[sessionID]; ...; mu.Unlock(); return nil\<close>\<close>
  "downloadTorrent_complete k w s =
     (if mu s \<noteq> Unlocked then None
      else
        (let p = (case fileMap s (w_sid w) of None \<Rightarrow> [] | Some q \<Rightarrow> q)
         in Some (returned k w False
                    (s\<lparr>completedFiles := (completedFiles s)(w_sid w \<mapsto> p),
                       logs := logs s @ [CompletedFileAdded p]\<rparr>))))"

definition goroutine_cleanup :: "nat \<Rightarrow> worker \<Rightarrow> server \<Rightarrow> server option" where
  \<comment> \<open>the end of the closure in \<open>downloadHandler\<close>: three \<open>delete\<close>s under \<open>mu\<close>\<close>
  "goroutine_cleanup k w s =
     (if mu s \<noteq> Unlocked then None
      else Some (s\<lparr>progressMap := (progressMap s)(w_sid w := None),
                   downloadMap := (downloadMap s)(w_sid w := None),
                   fileMap := (fileMap s)(w_sid w := None),
                   goroutines := (goroutines s)(k \<mapsto> w\<lparr>w_pc := Exited\<rparr>)\<rparr>))"

definition worker_step :: "(float64 \<Rightarrow> int) \<Rightarrow> nat \<Rightarrow> input \<Rightarrow> server \<Rightarrow> server option" where
  "worker_step cvt k inp s =
     (case goroutines s k of
        None \<Rightarrow> None
      | Some w \<Rightarrow>
          (case w_pc w of
             Resolve \<Rightarrow> downloadTorrent_resolve k w inp s
           | Open \<Rightarrow> downloadFile_open k w inp s
           | Loop \<Rightarrow> downloadFile_iter cvt k w inp s
           | Complete \<Rightarrow> (if inp = Go then downloadTorrent_complete k w s else None)
           | Cleanup \<Rightarrow> (if inp = Go then goroutine_cleanup k w s else None)
           | Exited \<Rightarrow> None))"

subsection \<open>The HTTP handlers\<close>

definition progressHandler :: "string \<Rightarrow> server \<Rightarrow> (response \<times> server) option" where
  "progressHandler sessionID s =
     (if sessionID = [] then Some (HttpError 400 ''sessionID is required'', s)
      else if mu s \<noteq> Unlocked then None
      else case progressMap s sessionID of
             None \<Rightarrow> Some (HttpError 404 ''session not found'', s)
           | Some p \<Rightarrow> Some (ProgressJSON (heap s p), s))"

definition downloadHandler :: "string \<Rightarrow> string \<Rightarrow> server \<Rightarrow> (response \<times> server) option" where
  "downloadHandler sessionID magnetURI s =
     (if sessionID = [] then Some (HttpError 400 ''sessionID is required'', s)
      else if mu s \<noteq> Unlocked then None
      else
        (let s1 = (if progressMap s sessionID \<noteq> None
                   then s\<lparr>progressMap := (progressMap s)(sessionID := None),
                          downloadMap := (downloadMap s)(sessionID := None),
                          fileMap := (fileMap s)(sessionID := None)\<rparr>
                   else s);
             k = nxt s1
         in Some (StatusOK,
                  s1\<lparr>heap := (heap s1)(k := zeroProgress),
                     progressMap := (progressMap s1)(sessionID \<mapsto> k),
                     downloadMap := (downloadMap s1)(sessionID \<mapsto> k),
                     goroutines := (goroutines s1)
                       (k \<mapsto> \<lparr>w_sid = sessionID, w_uri = magnetURI, w_pc = Resolve,
                              w_files = [], w_pos = 0\<rparr>),
                     nxt := Suc k\<rparr>)))"

definition cancelHandler :: "string \<Rightarrow> server \<Rightarrow> (response \<times> server) option" where
  \<comment> \<open>up to \<open>cancelChan <- true\<close>, where the call waits for a receiver with \<open>mu\<close> held\<close>
  "cancelHandler sessionID s =
     (if sessionID = [] then Some (HttpError 400 ''sessionID is required'', s)
      else if mu s \<noteq> Unlocked then None
      else case downloadMap s sessionID of
             None \<Rightarrow> Some (HttpError 404 ''no download in progress for this session'', s)
           | Some c \<Rightarrow> Some (Waiting, s\<lparr>mu := CancelSending sessionID c\<rparr>))"

definition cancelHandler_resume :: "server \<Rightarrow> (response \<times> server) option" where
  \<comment> \<open>after the send: delete the file of \<open>fileMap\<close>, reset the progress entry, answer 200\<close>
  "cancelHandler_resume s =
     (case mu s of
        CancelSent sessionID \<Rightarrow>
          (let s1 = (case fileMap s sessionID of
                       None \<Rightarrow> s
                     | Some p \<Rightarrow> (removeFile p s)\<lparr>fileMap := (fileMap s)(sessionID := None)\<rparr>);
               a = nxt s1
           in Some (StatusOK,
                    s1\<lparr>heap := (heap s1)(a := zeroProgress),
                       progressMap := (progressMap s1)(sessionID \<mapsto> a),
                       nxt := Suc a,
                       mu := Unlocked\<rparr>))
      | _ \<Rightarrow> None)"

definition completedHandler :: "server \<Rightarrow> (response \<times> server) option" where
  "completedHandler s =
     (if mu s \<noteq> Unlocked then None else Some (CompletedJSON (completedFiles s), s))"

subsection \<open>One event, and runs\<close>

definition step :: "(float64 \<Rightarrow> int) \<Rightarrow> event \<Rightarrow> server \<Rightarrow> (response \<times> server) option" where
  "step cvt e s =
     (case e of
        ReqProgress sessionID \<Rightarrow> progressHandler sessionID s
      | ReqDownload sessionID magnetURI \<Rightarrow> downloadHandler sessionID magnetURI s
      | ReqCancel sessionID \<Rightarrow> cancelHandler sessionID s
      | ReqCompleted \<Rightarrow> completedHandler s
      | CancelResume \<Rightarrow> cancelHandler_resume s
      | Worker k inp \<Rightarrow> map_option (Pair Internal) (worker_step cvt k inp s))"

fun run :: "(float64 \<Rightarrow> int) \<Rightarrow> event list \<Rightarrow> server \<Rightarrow> server option" where
  "run cvt [] s = Some s"
| "run cvt (e # es) s = (case step cvt e s of None \<Rightarrow> None | Some (r, s') \<Rightarrow> run cvt es s')"

fun responses :: "(float64 \<Rightarrow> int) \<Rightarrow> event list \<Rightarrow> server \<Rightarrow> response list option" where
  \<comment> \<open>what the events of a run answer, in order; \<open>None\<close> when one of them finds itself blocked\<close>
  "responses cvt [] s = Some []"
| "responses cvt (e # es) s =
     (case step cvt e s of
        None \<Rightarrow> None
      | Some (r, s') \<Rightarrow> map_option ((#) r) (responses cvt es s'))"

subsection \<open>What the torrent engine delivers\<close>

text \<open>
  The engine (\<open>github.com/anacrolix/torrent\<close>) is not part of the repository. Its contract,
  as far as the progress arithmetic depends on it: a file's length is not negative, the
  lengths of a torrent's files add up to an \<open>int64\<close>, and the reads of one file's reader
  return no more bytes than the file has. \<open>engine_ok e s\<close>: the event \<open>e\<close>, taken in state
  \<open>s\<close>, respects that contract. \<open>obeys cvt es s\<close>: the events \<open>es\<close> can be taken one after
  the other from \<open>s\<close> (none finds its goroutine or handler blocked) and each respects it.
\<close>

definition sumLen :: "tfile list \<Rightarrow> int" where
  "sumLen fs = sum_list (map flength fs)"

definition lengths_ok :: "tfile list \<Rightarrow> bool" where
  "lengths_ok fs = list_all (\<lambda>f. 0 \<le> flength f) fs"

definition read_ok :: "worker \<Rightarrow> nat \<Rightarrow> bool" where
  "read_ok w n = (case w_files w of [] \<Rightarrow> True | f # fs \<Rightarrow> w_pos w + int n \<le> flength f)"

fun engine_ok :: "event \<Rightarrow> server \<Rightarrow> bool" where
  "engine_ok (Worker k (Resolved fs)) s = (lengths_ok fs \<and> sumLen fs < 2 ^ 63)"
| "engine_ok (Worker k (ReadResult n err wok)) s =
     (case goroutines s k of None \<Rightarrow> True | Some w \<Rightarrow> read_ok w n)"
| "engine_ok e s = True"

fun obeys :: "(float64 \<Rightarrow> int) \<Rightarrow> event list \<Rightarrow> server \<Rightarrow> bool" where
  "obeys cvt [] s = True"
| "obeys cvt (e # es) s =
     (engine_ok e s \<and>
      (case step cvt e s of None \<Rightarrow> False | Some (r, s') \<Rightarrow> obeys cvt es s'))"

text \<open>
  The invariant behind the progress claims. For the record \<open>p\<close> of a goroutine \<open>w\<close>:
  what has been counted plus what the unfinished files can still deliver does not
  exceed the total.
\<close>

definition worker_inv :: "ProgressResponse \<Rightarrow> worker \<Rightarrow> bool" where
  "worker_inv p w =
     (0 \<le> DownloadedBytes p \<and> DownloadedBytes p \<le> TotalSizeBytes p \<and>
      TotalSizeBytes p < 2 ^ 63 \<and>
      (TotalSizeBytes p = 0 \<longrightarrow> Progress p = 0) \<and>
      (case w_pc w of
         Resolve \<Rightarrow> p = zeroProgress
       | Open \<Rightarrow> lengths_ok (w_files w) \<and>
                 DownloadedBytes p + sumLen (w_files w) \<le> TotalSizeBytes p
       | Loop \<Rightarrow> w_files w \<noteq> [] \<and> lengths_ok (w_files w) \<and> 0 \<le> w_pos w \<and>
                 w_pos w \<le> flength (hd (w_files w)) \<and>
                 DownloadedBytes p + sumLen (w_files w) - w_pos w \<le> TotalSizeBytes p
       | _ \<Rightarrow> True))"

definition server_inv :: "server \<Rightarrow> bool" where
  "server_inv s =
     (\<forall>a. case goroutines s a of
             None \<Rightarrow> heap s a = zeroProgress
           | Some w \<Rightarrow> a < nxt s \<and> worker_inv (heap s a) w)"

subsection \<open>A concrete platform\<close>

text \<open>
  On amd64 the conversion of a \<open>float64\<close> that no \<open>int\<close> holds gives \<open>-2^63\<close>
  (the "integer indefinite" value of \<open>CVTTSD2SQ\<close>).
\<close>

definition cvt0 :: "float64 \<Rightarrow> int" where
  "cvt0 f = - (2 ^ 63)"

section \<open>Properties\<close>

lemma wrap64_id: "- (2 ^ 63) \<le> x \<Longrightarrow> x < 2 ^ 63 \<Longrightarrow> wrap64 x = x"
  by (simp add: wrap64_def)

lemmas model_defs = step_def worker_step_def downloadTorrent_resolve_def downloadFile_open_def
  downloadFile_iter_def downloadTorrent_complete_def goroutine_cleanup_def file_done_def
  returned_def removeFile_def cancel_pending_def progressHandler_def downloadHandler_def
  cancelHandler_def cancelHandler_resume_def completedHandler_def init_def zeroProgress_def
  totalSize_def Let_def


lemma returned_simps [simp]:
  "completedFiles (returned k w b s) = completedFiles s"
  "progressMap (returned k w b s) = progressMap s"
  "downloadMap (returned k w b s) = downloadMap s"
  "fileMap (returned k w b s) = fileMap s"
  "mu (returned k w b s) = mu s"
  "heap (returned k w b s) = heap s"
  "nxt (returned k w b s) = nxt s"
  "disk (returned k w b s) = disk s"
  "goroutines (returned k w b s) = (goroutines s)(k \<mapsto> w\<lparr>w_pc := Cleanup\<rparr>)"
  by (simp_all add: returned_def)

lemma removeFile_simps [simp]:
  "completedFiles (removeFile p s) = completedFiles s"
  "progressMap (removeFile p s) = progressMap s"
  "downloadMap (removeFile p s) = downloadMap s"
  "fileMap (removeFile p s) = fileMap s"
  "mu (removeFile p s) = mu s"
  "heap (removeFile p s) = heap s"
  "nxt (removeFile p s) = nxt s"
  "goroutines (removeFile p s) = goroutines s"
  "disk (removeFile p s) = disk s - {p}"
  by (auto simp: removeFile_def)

lemma file_done_simps [simp]:
  "completedFiles (file_done k w s) = completedFiles s"
  "progressMap (file_done k w s) = progressMap s"
  "downloadMap (file_done k w s) = downloadMap s"
  "fileMap (file_done k w s) = fileMap s"
  "mu (file_done k w s) = mu s"
  "heap (file_done k w s) = heap s"
  "nxt (file_done k w s) = nxt s"
  "disk (file_done k w s) = disk s"
  by (simp_all add: file_done_def)

lemma worker_step_completedFiles:
  assumes "worker_step cvt k inp s = Some s'"
  shows "completedFiles s' = completedFiles s \<or>
         (\<exists>w. inp = Go \<and> goroutines s k = Some w \<and> w_pc w = Complete \<and> mu s = Unlocked \<and>
              completedFiles s' = (completedFiles s)
                (w_sid w \<mapsto> (case fileMap s (w_sid w) of None \<Rightarrow> [] | Some q \<Rightarrow> q)))"
proof -
  from assms obtain w where w: "goroutines s k = Some w"
    by (auto simp: worker_step_def split: option.splits)
  show ?thesis
  proof (cases "w_pc w")
    case Resolve
    with assms w show ?thesis
      by (auto simp: worker_step_def downloadTorrent_resolve_def split: input.splits)
  next
    case Open
    with assms w show ?thesis
      by (auto simp: worker_step_def downloadFile_open_def Let_def split: input.splits list.splits)
  next
    case Loop
    with assms w show ?thesis
      by (auto simp: worker_step_def downloadFile_iter_def Let_def
               split: input.splits list.splits lock.splits if_splits)
  next
    case Complete
    with assms w show ?thesis
      by (auto simp: worker_step_def downloadTorrent_complete_def Let_def split: if_splits)
  next
    case Cleanup
    with assms w show ?thesis
      by (auto simp: worker_step_def goroutine_cleanup_def split: if_splits)
  next
    case Exited
    with assms w show ?thesis by (simp add: worker_step_def)
  qed
qed

lemma handler_completedFiles:
  "progressHandler sid s = Some (r, s') \<Longrightarrow> completedFiles s' = completedFiles s"
  "downloadHandler sid uri s = Some (r, s') \<Longrightarrow> completedFiles s' = completedFiles s"
  "cancelHandler sid s = Some (r, s') \<Longrightarrow> completedFiles s' = completedFiles s"
  "cancelHandler_resume s = Some (r, s') \<Longrightarrow> completedFiles s' = completedFiles s"
  "completedHandler s = Some (r, s') \<Longrightarrow> completedFiles s' = completedFiles s"
  by (auto simp: progressHandler_def downloadHandler_def cancelHandler_def
        cancelHandler_resume_def completedHandler_def Let_def
      split: if_splits option.splits lock.splits)

subsection \<open>The float64 operations round to nearest\<close>

text \<open>
  \<open>rn53_pos a b\<close> is a number of 53 significant bits within half a unit in the last place
  of \<open>a / b\<close>, hence within \<open>a / b / 2^53\<close> of it; integers below \<open>2^53\<close> convert exactly.
  With the two roundings of \<open>float64(d) / float64(t) * 100\<close> this puts the percentage at
  \<open>100 * d div t\<close> or one below, for totals up to \<open>2^44\<close> bytes.
\<close>

lemma bits_nonneg: "0 \<le> bits a"
proof (induction a rule: bits.induct)
  case (1 a)
  show ?case
  proof (cases "a \<le> 0")
    case True
    then show ?thesis by (subst bits.simps) simp
  next
    case False
    from "1.IH" [OF False] have "0 \<le> bits (a div 2)" .
    with False show ?thesis by (subst bits.simps) simp
  qed
qed

lemma bits_pos: "0 < a \<Longrightarrow> 1 \<le> bits a"
  using bits_nonneg [of "a div 2"] by (subst bits.simps) simp

lemma bits_bounds: "0 < a \<Longrightarrow> 2 ^ nat (bits a - 1) \<le> a \<and> a < 2 ^ nat (bits a)"
proof (induction a rule: bits.induct)
  case (1 a)
  show ?case
  proof (cases "a = 1")
    case True
    have "bits 1 = 1" by (simp add: bits.simps [of 1] bits.simps [of 0])
    with True show ?thesis by simp
  next
    case False
    with "1.prems" have a2: "0 < a div 2" and a0: "\<not> a \<le> 0" by auto
    from "1.IH" [OF a0 a2] have ih: "2 ^ nat (bits (a div 2) - 1) \<le> a div 2"
      "a div 2 < 2 ^ nat (bits (a div 2))" by simp_all
    from a2 have b1: "1 \<le> bits (a div 2)" by (rule bits_pos)
    from a0 have ba: "bits a = 1 + bits (a div 2)" by (subst bits.simps) simp
    from b1 have n1: "nat (bits (a div 2)) = Suc (nat (bits (a div 2) - 1))" by simp
    from ba b1 have n2: "nat (bits a) = Suc (nat (bits (a div 2)))" by simp
    from ba have n3: "nat (bits a - 1) = nat (bits (a div 2))" by simp
    have "2 ^ nat (bits a - 1) = 2 * (2::int) ^ nat (bits (a div 2) - 1)"
      by (simp add: n3 n1)
    also have "\<dots> \<le> 2 * (a div 2)" using ih(1) by simp
    also have "\<dots> \<le> a" by simp
    finally have l: "2 ^ nat (bits a - 1) \<le> a" .
    have "a \<le> 2 * (a div 2) + 1" by simp
    also have "\<dots> < 2 * 2 ^ nat (bits (a div 2))" using ih(2) by simp
    also have "\<dots> = 2 ^ nat (bits a)" by (simp add: n2)
    finally have "a < 2 ^ nat (bits a)" .
    with l show ?thesis by simp
  qed
qed

lemma valof_powi: "valof m e = real_of_int m * 2 powi e"
proof (cases "0 \<le> e")
  case True
  then show ?thesis by (simp add: valof_def num_of_def den_of_def power_int_def)
next
  case False
  then show ?thesis
    by (simp add: valof_def num_of_def den_of_def power_int_def field_simps)
qed

lemma scaled_real:
  assumes "0 < b"
  shows "real_of_int (fst (scaled a b k)) / real_of_int (snd (scaled a b k)) =
         (real_of_int a / real_of_int b) * 2 powi (- k)"
proof (cases "0 \<le> k")
  case True
  then show ?thesis using assms
    by (cases "k = 0") (simp_all add: scaled_def power_int_def field_simps)
next
  case False
  then show ?thesis using assms by (simp add: scaled_def power_int_def field_simps)
qed

lemma scaled_pos: "0 < a \<Longrightarrow> 0 < b \<Longrightarrow> 0 < fst (scaled a b k) \<and> 0 < snd (scaled a b k)"
  by (simp add: scaled_def)

lemma round_even_real:
  assumes y: "0 < y"
  shows "\<bar>real_of_int (round_even x y) - real_of_int x / real_of_int y\<bar> \<le> 1 / 2"
proof -
  define q where "q = x div y"
  define r where "r = x mod y"
  have x: "x = q * y + r" by (simp add: q_def r_def)
  from y have r: "0 \<le> r" "r < y" by (simp_all add: r_def)
  from y have yr: "0 < real_of_int y" by simp
  have xy: "real_of_int x / real_of_int y = real_of_int q + real_of_int r / real_of_int y"
    using yr by (simp add: x field_simps)
  have re: "round_even x y = (if 2 * r < y then q else if y < 2 * r then q + 1
                              else if even q then q else q + 1)"
    by (simp add: round_even_def q_def r_def Let_def)
  have r0: "0 \<le> real_of_int r / real_of_int y" using r yr by simp
  have r1: "real_of_int r / real_of_int y < 1" using r yr by simp
  define z where "z = real_of_int r / real_of_int y"
  have xz: "real_of_int x / real_of_int y = real_of_int q + z" by (simp add: xy z_def)
  consider "2 * r < y" | "y < 2 * r" | "2 * r = y" by linarith
  then show ?thesis
  proof cases
    case 1
    then have "2 * real_of_int r < real_of_int y" by linarith
    then have "z < 1 / 2" using yr by (simp add: z_def field_simps)
    moreover have "0 \<le> z" using r0 by (simp add: z_def)
    moreover from 1 have "round_even x y = q" by (simp add: re)
    ultimately show ?thesis unfolding xz by simp
  next
    case 2
    then have "real_of_int y < 2 * real_of_int r" by linarith
    then have "1 / 2 < z" using yr by (simp add: z_def field_simps)
    moreover have "z < 1" using r1 by (simp add: z_def)
    moreover from 2 have "round_even x y = q + 1" by (simp add: re)
    ultimately show ?thesis unfolding xz by simp
  next
    case 3
    then have "2 * real_of_int r = real_of_int y" by linarith
    then have h: "z = 1 / 2" using yr by (simp add: z_def field_simps)
    from 3 have "round_even x y = q \<or> round_even x y = q + 1" by (simp add: re)
    then show ?thesis unfolding xz h by auto
  qed
qed

lemma bits_bounds_real:
  assumes "0 < a"
  shows "2 powi (bits a - 1) \<le> real_of_int a" and "real_of_int a < 2 powi (bits a)"
proof -
  from bits_pos [OF assms] have b: "0 \<le> bits a - 1" "0 \<le> bits a" by simp_all
  from bits_bounds [OF assms] have "2 ^ nat (bits a - 1) \<le> a" "a < 2 ^ nat (bits a)" by simp_all
  then have "real_of_int (2 ^ nat (bits a - 1)) \<le> real_of_int a"
    "real_of_int a < real_of_int (2 ^ nat (bits a))" by (simp_all only: of_int_le_iff of_int_less_iff)
  with b show "2 powi (bits a - 1) \<le> real_of_int a" "real_of_int a < 2 powi (bits a)"
    by (simp_all add: power_int_def)
qed

lemma powi_combine: "(2::real) powi x / 2 powi y * 2 powi z = 2 powi (x - y + z)"
  by (simp add: power_int_add power_int_diff)

lemma rn53_pos_bound:
  assumes a: "0 < a" and b: "0 < b"
  shows "2 ^ 52 \<le> fst (rn53_pos a b) \<and>
         \<bar>valof (fst (rn53_pos a b)) (snd (rn53_pos a b)) - real_of_int a / real_of_int b\<bar>
           \<le> (real_of_int a / real_of_int b) / 2 ^ 53"
proof -
  define k where "k = bits a - bits b - 53"
  define r where "r = real_of_int a / real_of_int b"
  define v0 where "v0 = r * 2 powi (- k)"
  define e where "e = (if fst (scaled a b k) div snd (scaled a b k) < 2 ^ 53 then k else k + 1)"
  define m where "m = round_even (fst (scaled a b e)) (snd (scaled a b e))"
  define v where "v = r * 2 powi (- e)"
  have rn: "rn53_pos a b = (m, e)"
    by (simp add: rn53_pos_def Let_def m_def e_def k_def)
  have ar: "0 < real_of_int a" "0 < real_of_int b" using a b by simp_all
  have rpos: "0 < r" using ar by (simp add: r_def)
  \<comment> \<open>the quotient lies strictly between \<open>2^(k+52)\<close> and \<open>2^(k+54)\<close>\<close>
  have lo: "2 powi (bits a - 1) / 2 powi (bits b) < r"
  proof -
    have "2 powi (bits a - 1) / 2 powi (bits b) < 2 powi (bits a - 1) / real_of_int b"
      using bits_bounds_real(2) [OF b] ar
      by (intro divide_strict_left_mono mult_pos_pos) simp_all
    also have "\<dots> \<le> r" unfolding r_def
      using bits_bounds_real(1) [OF a] ar by (intro divide_right_mono) simp_all
    finally show ?thesis .
  qed
  have hi: "r < 2 powi (bits a) / 2 powi (bits b - 1)"
  proof -
    have "r < 2 powi (bits a) / real_of_int b" unfolding r_def
      using bits_bounds_real(2) [OF a] ar by (intro divide_strict_right_mono) simp_all
    also have "\<dots> \<le> 2 powi (bits a) / 2 powi (bits b - 1)"
      using bits_bounds_real(1) [OF b] ar
      by (intro divide_left_mono mult_pos_pos) simp_all
    finally show ?thesis .
  qed
  have p52: "2 powi (bits a - 1) / 2 powi (bits b) * 2 powi (- k) = (2 ^ 52 :: real)"
  proof -
    have "2 powi (bits a - 1) / 2 powi (bits b) * 2 powi (- k) =
          (2::real) powi ((bits a - 1) - bits b + (- k))"
      by (rule powi_combine)
    also have "(bits a - 1) - bits b + (- k) = 52" by (simp add: k_def)
    finally show ?thesis by simp
  qed
  have p54: "2 powi (bits a) / 2 powi (bits b - 1) * 2 powi (- k) = (2 ^ 54 :: real)"
  proof -
    have "2 powi (bits a) / 2 powi (bits b - 1) * 2 powi (- k) =
          (2::real) powi (bits a - (bits b - 1) + (- k))"
      by (rule powi_combine)
    also have "bits a - (bits b - 1) + (- k) = 54" by (simp add: k_def)
    finally show ?thesis by simp
  qed
  have kpos: "0 < (2::real) powi (- k)" by simp
  have v0lo: "2 ^ 52 < v0"
    using mult_strict_right_mono [OF lo kpos] unfolding p52 v0_def .
  have v0hi: "v0 < 2 ^ 54"
    using mult_strict_right_mono [OF hi kpos] unfolding p54 v0_def .
  \<comment> \<open>the test of \<open>rn53_pos\<close> compares that scaled quotient with \<open>2^53\<close>\<close>
  have s0: "real_of_int (fst (scaled a b k)) / real_of_int (snd (scaled a b k)) = v0"
    using scaled_real [OF b, of a k] by (simp add: v0_def r_def)
  have "fst (scaled a b k) div snd (scaled a b k) = \<lfloor>v0\<rfloor>"
    by (simp only: s0 [symmetric] floor_divide_of_int_eq)
  then have test: "fst (scaled a b k) div snd (scaled a b k) < 2 ^ 53 \<longleftrightarrow> v0 < 2 ^ 53"
    by (simp add: floor_less_iff)
  have vlo: "2 ^ 52 \<le> v"
  proof (cases "v0 < 2 ^ 53")
    case True
    with test have "e = k" by (simp add: e_def)
    with v0lo show ?thesis by (simp add: v_def v0_def)
  next
    case False
    with test have ek: "e = k + 1" by (simp add: e_def)
    have "(2::real) powi (- e) = 2 powi (- k) / 2"
      unfolding ek by (simp add: power_int_diff)
    then have "v = v0 / 2" by (simp add: v_def v0_def)
    with False show ?thesis by simp
  qed
  \<comment> \<open>rounding the scaled quotient moves it by at most one half\<close>
  have se: "real_of_int (fst (scaled a b e)) / real_of_int (snd (scaled a b e)) = v"
    using scaled_real [OF b, of a e] by (simp add: v_def r_def)
  have ypos: "0 < snd (scaled a b e)" using scaled_pos [OF a b, of e] by simp
  have half: "\<bar>real_of_int m - v\<bar> \<le> 1 / 2"
    using round_even_real [OF ypos, of "fst (scaled a b e)"] by (simp add: se m_def)
  have "2 ^ 52 - 1 < real_of_int m" using half vlo by linarith
  then have "real_of_int (2 ^ 52 - 1) < real_of_int m" by simp
  then have "2 ^ 52 - 1 < m" by (simp only: of_int_less_iff)
  then have mlo: "2 ^ 52 \<le> m" by simp
  \<comment> \<open>back at the scale of the quotient\<close>
  define p where "p = (2::real) powi e"
  have ppos: "0 < p" by (simp add: p_def)
  have "p * 2 powi (- e) = 1" by (simp add: p_def power_int_minus)
  then have rv: "r = v * p" by (simp add: v_def mult.assoc mult.commute [of p])
  have val: "valof m e = real_of_int m * p" by (simp add: valof_powi p_def)
  have "\<bar>valof m e - r\<bar> = \<bar>real_of_int m - v\<bar> * p"
    using ppos by (simp add: val rv left_diff_distrib [symmetric] abs_mult)
  also have "\<dots> \<le> 1 / 2 * p" using half ppos by (intro mult_right_mono) simp_all
  also have "\<dots> = 2 ^ 52 * p / 2 ^ 53" by simp
  also have "\<dots> \<le> v * p / 2 ^ 53"
    using vlo ppos by (intro divide_right_mono mult_right_mono) simp_all
  also have "\<dots> = r / 2 ^ 53" by (simp add: rv)
  finally have "\<bar>valof m e - r\<bar> \<le> r / 2 ^ 53" .
  with mlo show ?thesis by (simp add: rn r_def)
qed

lemma rn53_pos_exact:
  assumes a: "0 < a" and s: "a < 2 ^ 53"
  shows "valof (fst (rn53_pos a 1)) (snd (rn53_pos a 1)) = real_of_int a"
proof -
  define k where "k = bits a - bits 1 - 53"
  define e where "e = (if fst (scaled a 1 k) div snd (scaled a 1 k) < 2 ^ 53 then k else k + 1)"
  define m where "m = round_even (fst (scaled a 1 e)) (snd (scaled a 1 e))"
  have rn: "rn53_pos a 1 = (m, e)"
    by (simp add: rn53_pos_def Let_def m_def e_def k_def)
  have b1: "bits 1 = 1" by (simp add: bits.simps [of 1] bits.simps [of 0])
  from bits_bounds [OF a] s have "(2::int) ^ nat (bits a - 1) < 2 ^ 53" by linarith
  then have "nat (bits a - 1) < 53" by (simp only: power_strict_increasing_iff)
  then have ba: "bits a \<le> 53" by simp
  from bits_pos [OF a] have ba1: "1 \<le> bits a" .
  have kneg: "k < 0" using ba by (simp add: k_def b1)
  have sk: "scaled a 1 k = (a * 2 ^ nat (- k), 1)" using kneg by (simp add: scaled_def)
  have "2 ^ 53 \<le> a * 2 ^ nat (- k)"
  proof -
    have "(2::int) ^ 53 = 2 ^ (nat (bits a - 1) + nat (- k))"
      using ba ba1 by (simp add: k_def b1 nat_diff_distrib nat_add_distrib [symmetric])
    also have "\<dots> = 2 ^ nat (bits a - 1) * 2 ^ nat (- k)" by (simp add: power_add)
    also have "\<dots> \<le> a * 2 ^ nat (- k)"
      using bits_bounds [OF a] by (intro mult_right_mono) simp_all
    finally show ?thesis .
  qed
  then have ek: "e = k + 1" by (simp add: e_def sk)
  then have e0: "e \<le> 0" using kneg by simp
  then have se: "scaled a 1 e = (a * 2 ^ nat (- e), 1)" by (simp add: scaled_def)
  have m: "m = a * 2 ^ nat (- e)" by (simp add: m_def se round_even_def Let_def)
  have "valof m e = real_of_int a * 2 ^ nat (- e) * 2 powi e" by (simp add: valof_powi m)
  also have "(2::real) ^ nat (- e) = 2 powi (- e)" using e0 by (simp add: power_int_def)
  also have "real_of_int a * 2 powi (- e) * 2 powi e = real_of_int a"
    by (simp add: power_int_minus)
  finally show ?thesis by (simp add: rn)
qed

lemma num_den_pos: "0 < m \<Longrightarrow> 0 < num_of m e" "0 < den_of e"
  by (simp_all add: num_of_def den_of_def)

lemma rn53_bound:
  assumes a: "0 < a" and b: "0 < b"
  obtains m e where "rn53 a b = Finite m e" and "0 < m"
    and "\<bar>valof m e - real_of_int a / real_of_int b\<bar> \<le> (real_of_int a / real_of_int b) / 2 ^ 53"
proof -
  from rn53_pos_bound [OF a b]
  have "0 < fst (rn53_pos a b)"
    and "\<bar>valof (fst (rn53_pos a b)) (snd (rn53_pos a b)) - real_of_int a / real_of_int b\<bar>
           \<le> (real_of_int a / real_of_int b) / 2 ^ 53" by simp_all
  moreover from a have "rn53 a b = Finite (fst (rn53_pos a b)) (snd (rn53_pos a b))"
    by (simp add: rn53_def)
  ultimately show ?thesis using that by blast
qed

lemma float64_of_int_exact:
  assumes d: "0 < d" and s: "d < 2 ^ 53"
  obtains m e where "float64_of_int d = Finite m e" and "0 < m" and "valof m e = real_of_int d"
proof -
  from rn53_pos_bound [OF d, of 1] have "0 < fst (rn53_pos d 1)" by simp
  moreover from d have "float64_of_int d = Finite (fst (rn53_pos d 1)) (snd (rn53_pos d 1))"
    by (simp add: float64_of_int_def rn53_def)
  moreover note rn53_pos_exact [OF d s]
  ultimately show ?thesis using that by blast
qed

lemma fdiv_bound:
  assumes m1: "0 < m1" and m2: "0 < m2"
  obtains m e where "fdiv (Finite m1 e1) (Finite m2 e2) = Finite m e" and "0 < m"
    and "\<bar>valof m e - valof m1 e1 / valof m2 e2\<bar> \<le> (valof m1 e1 / valof m2 e2) / 2 ^ 53"
proof -
  define a where "a = num_of m1 e1 * den_of e2"
  define b where "b = num_of m2 e2 * den_of e1"
  have a: "0 < a" and b: "0 < b"
    using num_den_pos(1) [OF m1, of e1] num_den_pos(1) [OF m2, of e2]
      num_den_pos(2) [of e1] num_den_pos(2) [of e2] by (simp_all add: a_def b_def)
  have f: "fdiv (Finite m1 e1) (Finite m2 e2) = rn53 a b"
    using m2 num_den_pos(1) [OF m2, of e2] by (simp add: a_def b_def)
  have q: "real_of_int a / real_of_int b = valof m1 e1 / valof m2 e2"
    using num_den_pos(1) [OF m2, of e2] num_den_pos(2) [of e1] num_den_pos(2) [of e2]
    by (simp add: a_def b_def valof_def)
  from rn53_bound [OF a b] f q show ?thesis using that by metis
qed

lemma fmul_bound:
  assumes m1: "0 < m1" and m2: "0 < m2"
  obtains m e where "fmul (Finite m1 e1) (Finite m2 e2) = Finite m e" and "0 < m"
    and "\<bar>valof m e - valof m1 e1 * valof m2 e2\<bar> \<le> (valof m1 e1 * valof m2 e2) / 2 ^ 53"
proof -
  define a where "a = num_of m1 e1 * num_of m2 e2"
  define b where "b = den_of e1 * den_of e2"
  have a: "0 < a" and b: "0 < b"
    using num_den_pos(1) [OF m1, of e1] num_den_pos(1) [OF m2, of e2]
      num_den_pos(2) [of e1] num_den_pos(2) [of e2] by (simp_all add: a_def b_def)
  have f: "fmul (Finite m1 e1) (Finite m2 e2) = rn53 a b" by (simp add: a_def b_def)
  have q: "real_of_int a / real_of_int b = valof m1 e1 * valof m2 e2"
    by (simp add: a_def b_def valof_def)
  from rn53_bound [OF a b] f q show ?thesis using that by metis
qed

lemma float64_to_int_floor:
  assumes m: "0 < m" and lo: "- (2 ^ 63) \<le> \<lfloor>valof m e\<rfloor>" and hi: "\<lfloor>valof m e\<rfloor> < 2 ^ 63"
  shows "float64_to_int cvt (Finite m e) = \<lfloor>valof m e\<rfloor>"
proof -
  have "\<lfloor>valof m e\<rfloor> = num_of m e div den_of e"
    unfolding valof_def by (rule floor_divide_of_int_eq)
  moreover have "\<bar>num_of m e\<bar> = num_of m e" using num_den_pos(1) [OF m, of e] by simp
  ultimately show ?thesis using m lo hi by (simp add: float64_to_int_def Let_def)
qed

lemma percent_floor_or_one_less:
  assumes d: "0 < d" and dt: "d \<le> t" and t: "t \<le> 2 ^ 44"
  shows "percent cvt d t = (100 * d) div t \<or> percent cvt d t = (100 * d) div t - 1"
proof -
  from d dt have tpos: "0 < t" by simp
  from dt t have d53: "d < 2 ^ 53" and t53: "t < 2 ^ 53" by simp_all
  obtain md ed where D: "float64_of_int d = Finite md ed" "0 < md" "valof md ed = real_of_int d"
    using float64_of_int_exact [OF d d53] by blast
  obtain mt et where T: "float64_of_int t = Finite mt et" "0 < mt" "valof mt et = real_of_int t"
    using float64_of_int_exact [OF tpos t53] by blast
  obtain mh eh where H: "float64_of_int 100 = Finite mh eh" "0 < mh" "valof mh eh = 100"
    using float64_of_int_exact [of 100] by auto
  define r where "r = real_of_int d / real_of_int t"
  obtain mq eq where Q: "fdiv (Finite md ed) (Finite mt et) = Finite mq eq" "0 < mq"
    and qb: "\<bar>valof mq eq - r\<bar> \<le> r / 2 ^ 53"
    using fdiv_bound [OF D(2) T(2), of ed et] by (auto simp: D(3) T(3) r_def)
  define q where "q = valof mq eq"
  obtain mp ep where P: "fmul (Finite mq eq) (Finite mh eh) = Finite mp ep" "0 < mp"
    and pb: "\<bar>valof mp ep - q * 100\<bar> \<le> q * 100 / 2 ^ 53"
    using fmul_bound [OF Q(2) H(2), of eq eh] by (auto simp: H(3) q_def)
  define p where "p = valof mp ep"
  have pc: "percent cvt d t = float64_to_int cvt (Finite mp ep)"
    by (simp only: percent_def D(1) T(1) H(1) Q(1) P(1))
  \<comment> \<open>the two roundings move the exact value \<open>100 * d / t\<close> by less than \<open>300 / 2^53\<close>\<close>
  have r0: "0 < r" and r1: "r \<le> 1" using d dt tpos by (simp_all add: r_def)
  define ru where "ru = r / 2 ^ 53"
  define pu where "pu = q * 100 / 2 ^ 53"
  define c1 :: real where "c1 = 1 / 2 ^ 53"
  define c2 :: real where "c2 = (1 + 1 / 2 ^ 53) * 100 / 2 ^ 53"
  have f1: "ru \<le> c1" unfolding ru_def c1_def using r1 by (intro divide_right_mono) simp_all
  have ru0: "0 \<le> ru" unfolding ru_def using r0 by simp
  have c11: "c1 \<le> 1" by (simp add: c1_def)
  from qb have "\<bar>q - r\<bar> \<le> ru" by (simp only: q_def ru_def)
  then have f2: "q \<le> r + ru" "r - ru \<le> q" by linarith+
  have q1: "q \<le> 1 + 1 / 2 ^ 53" using f2 f1 r1 unfolding c1_def by linarith
  have q0: "0 \<le> q" using f2 f1 r0 r1 c11 ru0
  proof -
    have "ru \<le> r" unfolding ru_def using r0 by (simp add: field_simps)
    with f2 show ?thesis by linarith
  qed
  have f3: "pu \<le> c2" unfolding pu_def c2_def
    using q1 by (intro divide_right_mono mult_right_mono) simp_all
  have pu0: "0 \<le> pu" unfolding pu_def using q0 by simp
  from pb have "\<bar>p - q * 100\<bar> \<le> pu" by (simp only: p_def pu_def)
  then have f4: "p \<le> q * 100 + pu" "q * 100 - pu \<le> p" by linarith+
  define x where "x = 100 * r"
  have cc: "100 * c1 + c2 < 1 / 2 ^ 44" "100 * c1 + c2 < 1" by (simp_all add: c1_def c2_def)
  have up: "p < x + 1 / 2 ^ 44" using f1 f2 f3 f4 cc unfolding x_def by linarith
  have low: "x - 1 < p" using f1 f2 f3 f4 cc unfolding x_def by linarith
  \<comment> \<open>the exact value and its floor\<close>
  define K where "K = (100 * d) div t"
  have xq: "x = real_of_int (100 * d) / real_of_int t" by (simp add: x_def r_def)
  have K: "K = \<lfloor>x\<rfloor>" unfolding xq K_def by (rule floor_divide_of_int_eq [symmetric])
  have "100 * d < (K + 1) * t"
    using tpos unfolding K_def
    by (metis add.commute div_mult_mod_eq less_add_same_cancel2 mult.commute
          pos_mod_bound distrib_right mult_1 add_less_cancel_left)
  then have "100 * d + 1 \<le> (K + 1) * t" by simp
  then have "real_of_int (100 * d + 1) \<le> real_of_int ((K + 1) * t)" by (simp only: of_int_le_iff)
  then have "real_of_int (100 * d) / real_of_int t + 1 / real_of_int t \<le> real_of_int K + 1"
    using tpos by (simp add: field_simps)
  then have x1: "x + 1 / real_of_int t \<le> real_of_int K + 1" by (simp add: xq)
  have "real_of_int t \<le> 2 ^ 44" using t by (metis of_int_le_iff of_int_numeral of_int_power)
  then have "1 / 2 ^ 44 \<le> 1 / real_of_int t" using tpos by (intro divide_left_mono) simp_all
  with up x1 have "p < real_of_int (K + 1)" by simp
  then have "\<lfloor>p\<rfloor> < K + 1" by (simp only: floor_less_iff)
  then have fl1: "\<lfloor>p\<rfloor> \<le> K" by simp
  have "real_of_int K \<le> x" by (simp add: K)
  with low have "real_of_int (K - 1) \<le> p" by simp
  then have fl2: "K - 1 \<le> \<lfloor>p\<rfloor>" by (simp only: le_floor_iff)
  have K0: "0 \<le> K" using d tpos by (simp add: K_def pos_imp_zdiv_nonneg_iff)
  have K100: "K \<le> 100"
  proof -
    have "100 * d \<le> 100 * t" using dt by simp
    then have "(100 * d) div t \<le> (100 * t) div t" by (rule zdiv_mono1) (rule tpos)
    then show ?thesis using tpos by (simp add: K_def)
  qed
  have n63: "- (2 ^ 63) \<le> (- 1 :: int)" "(100 :: int) < 2 ^ 63" by simp_all
  have lo': "- (2 ^ 63) \<le> \<lfloor>p\<rfloor>" using fl2 K0 n63 by linarith
  have hi': "\<lfloor>p\<rfloor> < 2 ^ 63" using fl1 K100 n63 by linarith
  have "float64_to_int cvt (Finite mp ep) = \<lfloor>p\<rfloor>"
    using lo' hi' unfolding p_def by (rule float64_to_int_floor [OF P(2)])
  with pc fl1 fl2 show ?thesis unfolding K_def by auto
qed

lemma float64_known_values:
  "float64_of_int 100 = Finite 7036874417766400 (- 46)"
  "float64_of_int (2 ^ 53 + 1) = Finite 4503599627370496 1"
  "float64_of_int (2 ^ 53 + 3) = Finite 4503599627370498 1"
  "fdiv (float64_of_int 1) (float64_of_int 3) = Finite 6004799503160661 (- 54)"
  "fdiv (float64_of_int 29) (float64_of_int 100) = Finite 5224175567749775 (- 54)"
  by code_simp+

text \<open>One event at a time: what each transition of the cancel path yields.\<close>

lemma step_ReqCancel:
  "sid \<noteq> [] \<Longrightarrow> mu s = Unlocked \<Longrightarrow> downloadMap s sid = Some k \<Longrightarrow>
   step cvt (ReqCancel sid) s = Some (Waiting, s\<lparr>mu := CancelSending sid k\<rparr>)"
  by (simp add: step_def cancelHandler_def)


lemma step_receive:
  "goroutines s k = Some w \<Longrightarrow> w_pc w = Loop \<Longrightarrow> w_files w = f # fs \<Longrightarrow>
   mu s = CancelSending sid k \<Longrightarrow>
   step cvt (Worker k Go) s =
     Some (Internal, file_done k w ((removeFile (fpath f) s)\<lparr>mu := CancelSent sid\<rparr>))"
  by (simp add: step_def worker_step_def downloadFile_iter_def)

lemma step_complete:
  "goroutines s k = Some w \<Longrightarrow> w_pc w = Complete \<Longrightarrow> mu s = Unlocked \<Longrightarrow>
   step cvt (Worker k Go) s =
     Some (Internal,
       returned k w False
         (s\<lparr>completedFiles := (completedFiles s)
               (w_sid w \<mapsto> (case fileMap s (w_sid w) of None \<Rightarrow> [] | Some q \<Rightarrow> q)),
            logs := logs s @
               [CompletedFileAdded (case fileMap s (w_sid w) of None \<Rightarrow> [] | Some q \<Rightarrow> q)]\<rparr>))"
  by (simp add: step_def worker_step_def downloadTorrent_complete_def Let_def)

lemma step_cleanup:
  "goroutines s k = Some w \<Longrightarrow> w_pc w = Cleanup \<Longrightarrow> mu s = Unlocked \<Longrightarrow>
   step cvt (Worker k Go) s =
     Some (Internal,
       s\<lparr>progressMap := (progressMap s)(w_sid w := None),
         downloadMap := (downloadMap s)(w_sid w := None),
         fileMap := (fileMap s)(w_sid w := None),
         goroutines := (goroutines s)(k \<mapsto> w\<lparr>w_pc := Exited\<rparr>)\<rparr>)"
  by (simp add: step_def worker_step_def goroutine_cleanup_def)




subsection \<open>The progress invariant holds in every reachable state\<close>

text \<open>
  \<open>server_inv\<close> holds initially and every event that respects the engine's contract keeps
  it: the handlers touch no record of a running goroutine (\<open>downloadHandler\<close> and the
  cancel call allocate fresh ones), and a goroutine changes only its own.
\<close>

lemma sumLen_simps [simp]:
  "sumLen [] = 0" "sumLen (f # fs) = flength f + sumLen fs"
  by (simp_all add: sumLen_def)

lemma lengths_ok_simps [simp]:
  "lengths_ok [] = True" "lengths_ok (f # fs) = (0 \<le> flength f \<and> lengths_ok fs)"
  by (simp_all add: lengths_ok_def)

lemma sumLen_nonneg: "lengths_ok fs \<Longrightarrow> 0 \<le> sumLen fs"
  by (induction fs) auto

lemma foldl_wrap64:
  "lengths_ok fs \<Longrightarrow> 0 \<le> a \<Longrightarrow> a + sumLen fs < 2 ^ 63 \<Longrightarrow>
   foldl (\<lambda>t f. wrap64 (t + flength f)) a fs = a + sumLen fs"
proof (induction fs arbitrary: a)
  case Nil
  then show ?case by simp
next
  case (Cons f fs)
  from Cons.prems have nn: "0 \<le> sumLen fs" by (simp add: sumLen_nonneg)
  with Cons.prems have "wrap64 (a + flength f) = a + flength f"
    by (intro wrap64_id) auto
  moreover have "foldl (\<lambda>t f. wrap64 (t + flength f)) (a + flength f) fs = a + flength f + sumLen fs"
    using Cons.prems by (intro Cons.IH) auto
  ultimately show ?case by simp
qed

lemma totalSize_sumLen:
  "lengths_ok fs \<Longrightarrow> sumLen fs < 2 ^ 63 \<Longrightarrow> totalSize fs = sumLen fs"
  using foldl_wrap64 [of fs 0] by (simp add: totalSize_def)

lemma server_inv_init: "server_inv init"
  by (simp add: server_inv_def init_def)

lemma server_invD:
  "server_inv s \<Longrightarrow> goroutines s a = Some w \<Longrightarrow> a < nxt s \<and> worker_inv (heap s a) w"
  "server_inv s \<Longrightarrow> goroutines s a = None \<Longrightarrow> heap s a = zeroProgress"
  by (auto simp: server_inv_def split: option.splits dest: spec [of _ a])

lemma server_inv_fresh: "server_inv s \<Longrightarrow> goroutines s (nxt s) = None"
  by (cases "goroutines s (nxt s)") (auto dest: server_invD)

lemma server_invI:
  "(\<And>a w. goroutines s a = Some w \<Longrightarrow> a < nxt s \<and> worker_inv (heap s a) w) \<Longrightarrow>
   (\<And>a. goroutines s a = None \<Longrightarrow> heap s a = zeroProgress) \<Longrightarrow> server_inv s"
  by (auto simp: server_inv_def split: option.splits)

lemma worker_inv_zero: "w_pc w = Resolve \<Longrightarrow> worker_inv zeroProgress w"
  by (simp add: worker_inv_def zeroProgress_def)

lemma inv_downloadHandler:
  assumes i: "server_inv s" and st: "downloadHandler sid uri s = Some (r, s')"
  shows "server_inv s'"
proof (cases "sid = []")
  case True
  with st i show ?thesis by (simp add: downloadHandler_def)
next
  case False
  with st have m: "mu s = Unlocked" by (auto simp: downloadHandler_def split: if_splits)
  from server_inv_fresh [OF i] have fr: "goroutines s (nxt s) = None" .
  show ?thesis
  proof (rule server_invI)
    fix a w assume "goroutines s' a = Some w"
    with st False m show "a < nxt s' \<and> worker_inv (heap s' a) w"
      using server_invD(1) [OF i, of a w]
      by (auto simp: downloadHandler_def Let_def worker_inv_zero split: if_splits)
  next
    fix a assume "goroutines s' a = None"
    with st False m show "heap s' a = zeroProgress"
      using server_invD(2) [OF i, of a]
      by (auto simp: downloadHandler_def Let_def split: if_splits)
  qed
qed

lemma server_inv_cong:
  "goroutines s' = goroutines s \<Longrightarrow> heap s' = heap s \<Longrightarrow> nxt s' = nxt s \<Longrightarrow>
   server_inv s' = server_inv s"
  by (simp add: server_inv_def split: option.split)

lemma inv_cancelHandler:
  assumes "server_inv s" and "cancelHandler sid s = Some (r, s')"
  shows "server_inv s'"
proof -
  from assms(2) have "goroutines s' = goroutines s" "heap s' = heap s" "nxt s' = nxt s"
    by (auto simp: cancelHandler_def split: if_splits option.splits)
  from server_inv_cong [OF this] assms(1) show ?thesis by simp
qed

lemma inv_read_only:
  "server_inv s \<Longrightarrow> progressHandler sid s = Some (r, s') \<Longrightarrow> server_inv s'"
  "server_inv s \<Longrightarrow> completedHandler s = Some (r, s') \<Longrightarrow> server_inv s'"
  by (auto simp: progressHandler_def completedHandler_def split: if_splits option.splits)

lemma inv_cancelHandler_resume:
  assumes i: "server_inv s" and st: "cancelHandler_resume s = Some (r, s')"
  shows "server_inv s'"
proof -
  from st obtain sid where mu: "mu s = CancelSent sid"
    by (auto simp: cancelHandler_resume_def split: lock.splits)
  define s1 where "s1 = (case fileMap s sid of None \<Rightarrow> s
                     | Some p \<Rightarrow> (removeFile p s)\<lparr>fileMap := (fileMap s)(sid := None)\<rparr>)"
  have s1: "goroutines s1 = goroutines s" "heap s1 = heap s" "nxt s1 = nxt s"
    by (auto simp: s1_def split: option.splits)
  from st mu have s': "s' = s1\<lparr>heap := (heap s1)(nxt s1 := zeroProgress),
                       progressMap := (progressMap s1)(sid \<mapsto> nxt s1),
                       nxt := Suc (nxt s1), mu := Unlocked\<rparr>"
    by (auto simp: cancelHandler_resume_def Let_def s1_def)
  from server_inv_fresh [OF i] have fr: "goroutines s (nxt s) = None" .
  show ?thesis
  proof (rule server_invI)
    fix a w assume "goroutines s' a = Some w"
    then show "a < nxt s' \<and> worker_inv (heap s' a) w"
      using server_invD(1) [OF i, of a w] fr by (auto simp: s' s1)
  next
    fix a assume "goroutines s' a = None"
    then show "heap s' a = zeroProgress"
      using server_invD(2) [OF i, of a] by (auto simp: s' s1)
  qed
qed

lemma server_inv_upd:
  assumes i: "server_inv s" and g: "goroutines s k = Some w"
    and g': "goroutines s' = (goroutines s)(k \<mapsto> w')"
    and h': "heap s' = (heap s)(k := p')" and n': "nxt s' = nxt s"
    and w': "worker_inv p' w'"
  shows "server_inv s'"
proof (rule server_invI)
  fix a v assume "goroutines s' a = Some v"
  then show "a < nxt s' \<and> worker_inv (heap s' a) v"
    using server_invD(1) [OF i, of a v] server_invD(1) [OF i g] g' h' n' w'
    by (cases "a = k") auto
next
  fix a assume "goroutines s' a = None"
  then show "heap s' a = zeroProgress"
    using server_invD(2) [OF i, of a] g' h' by (cases "a = k") auto
qed

lemma worker_inv_done:
  "worker_inv p w \<Longrightarrow> w_pc w' = Complete \<or> w_pc w' = Cleanup \<or> w_pc w' = Exited \<Longrightarrow>
   worker_inv p w'"
  by (auto simp: worker_inv_def)

lemma heap_same: "heap s = (heap s)(k := heap s k)" by simp

lemma inv_returned:
  assumes i: "server_inv s" and g: "goroutines s k = Some w" and w: "worker_inv (heap s k) w'"
  shows "server_inv (returned k w' b s)"
proof (rule server_inv_upd [OF i g])
  show "goroutines (returned k w' b s) = (goroutines s)(k \<mapsto> w'\<lparr>w_pc := Cleanup\<rparr>)" by simp
  show "heap (returned k w' b s) = (heap s)(k := heap s k)" by simp
  show "nxt (returned k w' b s) = nxt s" by simp
  show "worker_inv (heap s k) (w'\<lparr>w_pc := Cleanup\<rparr>)" using w by (rule worker_inv_done) simp
qed

lemma inv_resolve:
  assumes i: "server_inv s" and g: "goroutines s k = Some w" and pc: "w_pc w = Resolve"
    and e: "engine_ok (Worker k inp) s" and st: "downloadTorrent_resolve k w inp s = Some s'"
  shows "server_inv s'"
proof -
  from server_invD(1) [OF i g] have wi: "worker_inv (heap s k) w" by simp
  with pc have z: "heap s k = zeroProgress" by (simp add: worker_inv_def)
  show ?thesis
  proof (cases inp)
    case ResolveFailed
    with st have "s' = returned k w True s" by (simp add: downloadTorrent_resolve_def)
    with inv_returned [OF i g wi] show ?thesis by simp
  next
    case (Resolved fs)
    with e have ok: "lengths_ok fs" "sumLen fs < 2 ^ 63" by simp_all
    then have t: "totalSize fs = sumLen fs" by (rule totalSize_sumLen)
    from ok have nn: "0 \<le> sumLen fs" by (simp add: sumLen_nonneg)
    from st Resolved have s': "s' = s\<lparr>heap := (heap s)(k := (heap s k)\<lparr>TotalSizeBytes := totalSize fs\<rparr>),
                  goroutines := (goroutines s)
                    (k \<mapsto> w\<lparr>w_files := fs, w_pc := (if fs = [] then Complete else Open)\<rparr>)\<rparr>"
      by (simp add: downloadTorrent_resolve_def)
    show ?thesis
    proof (rule server_inv_upd [OF i g])
      show "worker_inv ((heap s k)\<lparr>TotalSizeBytes := totalSize fs\<rparr>)
              (w\<lparr>w_files := fs, w_pc := (if fs = [] then Complete else Open)\<rparr>)"
        using ok nn by (simp add: worker_inv_def z t zeroProgress_def)
    qed (simp_all add: s')
  qed (use st in \<open>simp_all add: downloadTorrent_resolve_def\<close>)
qed

lemma inv_open:
  assumes i: "server_inv s" and g: "goroutines s k = Some w" and pc: "w_pc w = Open"
    and st: "downloadFile_open k w inp s = Some s'"
  shows "server_inv s'"
proof -
  from server_invD(1) [OF i g] have wi: "worker_inv (heap s k) w" by simp
  from st obtain f fs where f: "w_files w = f # fs"
    by (cases "w_files w") (auto simp: downloadFile_open_def)
  define s1 where "s1 = s\<lparr>fileMap := (fileMap s)(w_sid w \<mapsto> fpath f)\<rparr>"
  define s2 where "s2 = s1\<lparr>logs := logs s1 @ [AttemptingToCreate (fpath f)]\<rparr>"
  have eq: "goroutines s1 = goroutines s" "heap s1 = heap s" "nxt s1 = nxt s"
           "goroutines s2 = goroutines s" "heap s2 = heap s" "nxt s2 = nxt s"
    by (simp_all add: s1_def s2_def)
  have i1: "server_inv s1" using server_inv_cong [OF eq(1-3)] i by simp
  have i2: "server_inv s2" using server_inv_cong [OF eq(4-6)] i by simp
  show ?thesis
  proof (cases inp)
    case MkdirFailed
    with st f have "s' = returned k w True s1"
      by (simp add: downloadFile_open_def s1_def Let_def)
    with inv_returned [OF i1, of k w w True] g wi eq show ?thesis by simp
  next
    case CreateFailed
    with st f have "s' = returned k w True s2"
      by (simp add: downloadFile_open_def s1_def s2_def Let_def)
    with inv_returned [OF i2, of k w w True] g wi eq show ?thesis by simp
  next
    case Opened
    with st f have s': "s' = s2\<lparr>disk := insert (fpath f) (disk s2),
                           goroutines := (goroutines s2)(k \<mapsto> w\<lparr>w_pc := Loop, w_pos := 0\<rparr>)\<rparr>"
      by (simp add: downloadFile_open_def s1_def s2_def Let_def)
    show ?thesis
    proof (rule server_inv_upd [OF i g])
      show "worker_inv (heap s k) (w\<lparr>w_pc := Loop, w_pos := 0\<rparr>)"
        using wi pc f by (simp add: worker_inv_def)
    qed (simp_all add: s' eq)
  qed (use st f in \<open>simp_all add: downloadFile_open_def Let_def\<close>)
qed

lemma worker_inv_advance:
  assumes wi: "worker_inv p w" and pc: "w_pc w = Loop" and f: "w_files w = f # fs"
    and r: "w_pos w + int n \<le> flength f"
  shows "worker_inv (if 0 < n then advance cvt p n else p) (w\<lparr>w_pos := w_pos w + int n\<rparr>)"
    and "0 < n \<Longrightarrow> 0 < TotalSizeBytes p"
    and "DownloadedBytes (if 0 < n then advance cvt p n else p) = DownloadedBytes p + int n"
proof -
  from wi pc f have b: "0 \<le> DownloadedBytes p" "TotalSizeBytes p < 2 ^ 63"
    "0 \<le> flength f" "lengths_ok fs" "0 \<le> w_pos w"
    "DownloadedBytes p + (flength f + sumLen fs) - w_pos w \<le> TotalSizeBytes p"
    "TotalSizeBytes p = 0 \<longrightarrow> Progress p = 0"
    by (simp_all add: worker_inv_def)
  from b(4) have nn: "0 \<le> sumLen fs" by (rule sumLen_nonneg)
  from b nn r have le: "DownloadedBytes p + int n \<le> TotalSizeBytes p" by linarith
  with b have w: "wrap64 (DownloadedBytes p + int n) = DownloadedBytes p + int n"
    by (intro wrap64_id) auto
  from le b show pos: "0 < n \<Longrightarrow> 0 < TotalSizeBytes p" by simp
  show "DownloadedBytes (if 0 < n then advance cvt p n else p) = DownloadedBytes p + int n"
    by (simp add: advance_def Let_def w)
  show "worker_inv (if 0 < n then advance cvt p n else p) (w\<lparr>w_pos := w_pos w + int n\<rparr>)"
  proof (cases "0 < n")
    case True
    with pos have "0 < TotalSizeBytes p" by simp
    with True b nn r le show ?thesis
      using pc f by (simp add: worker_inv_def advance_def Let_def w)
  next
    case False
    with wi pc f show ?thesis by (simp add: worker_inv_def)
  qed
qed

lemma inv_iter:
  assumes i: "server_inv s" and g: "goroutines s k = Some w" and pc: "w_pc w = Loop"
    and e: "engine_ok (Worker k inp) s" and st: "downloadFile_iter cvt k w inp s = Some s'"
  shows "server_inv s'"
proof -
  from server_invD(1) [OF i g] have wi: "worker_inv (heap s k) w" by simp
  from st obtain f fs where f: "w_files w = f # fs"
    by (cases "w_files w") (auto simp: downloadFile_iter_def)
  show ?thesis
  proof (cases inp)
    case Go
    with st f obtain sid where
      s': "s' = file_done k w ((removeFile (fpath f) s)\<lparr>mu := CancelSent sid\<rparr>)"
      by (auto simp: downloadFile_iter_def split: lock.splits if_splits)
    show ?thesis
    proof (rule server_inv_upd [OF i g])
      show "goroutines s' = (goroutines s)(k \<mapsto> w\<lparr>w_files := tl (w_files w),
                    w_pc := (if tl (w_files w) = [] then Complete else Open)\<rparr>)"
        by (simp add: s' file_done_def)
      show "heap s' = (heap s)(k := heap s k)" by (simp add: s')
      show "nxt s' = nxt s" by (simp add: s')
      from wi pc f have "lengths_ok fs" "0 \<le> sumLen fs"
        "DownloadedBytes (heap s k) + sumLen fs \<le> TotalSizeBytes (heap s k)"
        by (auto simp: worker_inv_def dest: sumLen_nonneg)
      with wi show "worker_inv (heap s k) (w\<lparr>w_files := tl (w_files w),
                    w_pc := (if tl (w_files w) = [] then Complete else Open)\<rparr>)"
        using f by (simp add: worker_inv_def)
    qed
  next
    case (ReadResult n err wok)
    with e g f have r: "w_pos w + int n \<le> flength f" by (simp add: read_ok_def)
    define p' where "p' = (if 0 < n then advance cvt (heap s k) n else heap s k)"
    define w1 where "w1 = w\<lparr>w_pos := w_pos w + int n\<rparr>"
    define s2 where "s2 = s\<lparr>heap := (heap s)(k := p'), goroutines := (goroutines s)(k \<mapsto> w1)\<rparr>"
    have wi1: "worker_inv p' w1"
      unfolding p'_def w1_def by (rule worker_inv_advance(1) [OF wi pc f r])
    have i2: "server_inv s2"
      by (rule server_inv_upd [OF i g _ _ _ wi1]) (simp_all add: s2_def)
    have g2: "goroutines s2 k = Some w1" "heap s2 k = p'" by (simp_all add: s2_def)
    from st ReadResult f have "s' = s2 \<or> s' = returned k w1 True s2"
      by (auto simp: downloadFile_iter_def Let_def s2_def p'_def w1_def split: if_splits)
    then show ?thesis
    proof
      assume "s' = s2" with i2 show ?thesis by simp
    next
      assume "s' = returned k w1 True s2"
      with inv_returned [OF i2 g2(1), of w1 True] wi1 g2 show ?thesis by simp
    qed
  qed (use st f in \<open>simp_all add: downloadFile_iter_def\<close>)
qed

lemma inv_complete:
  assumes i: "server_inv s" and g: "goroutines s k = Some w"
    and st: "downloadTorrent_complete k w s = Some s'"
  shows "server_inv s'"
proof -
  from server_invD(1) [OF i g] have wi: "worker_inv (heap s k) w" by simp
  define s1 where "s1 = s\<lparr>completedFiles := (completedFiles s)
      (w_sid w \<mapsto> (case fileMap s (w_sid w) of None \<Rightarrow> [] | Some q \<Rightarrow> q)),
      logs := logs s @ [CompletedFileAdded (case fileMap s (w_sid w) of None \<Rightarrow> [] | Some q \<Rightarrow> q)]\<rparr>"
  have eq: "goroutines s1 = goroutines s" "heap s1 = heap s" "nxt s1 = nxt s"
    by (simp_all add: s1_def)
  from server_inv_cong [OF eq] i have i1: "server_inv s1" by simp
  from st have "s' = returned k w False s1"
    by (auto simp: downloadTorrent_complete_def Let_def s1_def split: if_splits)
  with inv_returned [OF i1, of k w w False] g wi eq show ?thesis by simp
qed

lemma inv_cleanup:
  assumes i: "server_inv s" and g: "goroutines s k = Some w"
    and st: "goroutine_cleanup k w s = Some s'"
  shows "server_inv s'"
proof -
  from server_invD(1) [OF i g] have wi: "worker_inv (heap s k) w" by simp
  from st have s': "s' = s\<lparr>progressMap := (progressMap s)(w_sid w := None),
                   downloadMap := (downloadMap s)(w_sid w := None),
                   fileMap := (fileMap s)(w_sid w := None),
                   goroutines := (goroutines s)(k \<mapsto> w\<lparr>w_pc := Exited\<rparr>)\<rparr>"
    by (auto simp: goroutine_cleanup_def split: if_splits)
  show ?thesis
  proof (rule server_inv_upd [OF i g])
    show "worker_inv (heap s k) (w\<lparr>w_pc := Exited\<rparr>)" using wi by (rule worker_inv_done) simp
  qed (simp_all add: s')
qed

lemma inv_step:
  assumes i: "server_inv s" and e: "engine_ok e s" and st: "step cvt e s = Some (r, s')"
  shows "server_inv s'"
proof (cases e)
  case (Worker k inp)
  with st have ws: "worker_step cvt k inp s = Some s'" by (auto simp: step_def)
  then obtain w where g: "goroutines s k = Some w"
    by (auto simp: worker_step_def split: option.splits)
  from e Worker have e': "engine_ok (Worker k inp) s" by simp
  show ?thesis
  proof (cases "w_pc w")
    case Resolve
    with ws g inv_resolve [OF i g Resolve e'] show ?thesis by (simp add: worker_step_def)
  next
    case Open
    with ws g inv_open [OF i g Open] show ?thesis by (simp add: worker_step_def)
  next
    case Loop
    with ws g inv_iter [OF i g Loop e'] show ?thesis by (simp add: worker_step_def)
  next
    case Complete
    with ws g inv_complete [OF i g] show ?thesis
      by (simp add: worker_step_def split: if_splits)
  next
    case Cleanup
    with ws g inv_cleanup [OF i g] show ?thesis
      by (simp add: worker_step_def split: if_splits)
  next
    case Exited
    with ws g show ?thesis by (simp add: worker_step_def)
  qed
next
  case (ReqProgress sid)
  with st i show ?thesis by (auto simp: step_def dest: inv_read_only)
next
  case (ReqDownload sid uri)
  with st i show ?thesis by (auto simp: step_def dest: inv_downloadHandler)
next
  case (ReqCancel sid)
  with st i show ?thesis by (auto simp: step_def dest: inv_cancelHandler)
next
  case ReqCompleted
  with st i show ?thesis by (auto simp: step_def dest: inv_read_only)
next
  case CancelResume
  with st i show ?thesis by (auto simp: step_def dest: inv_cancelHandler_resume)
qed

lemma inv_run:
  "server_inv s \<Longrightarrow> obeys cvt es s \<Longrightarrow> \<exists>s'. run cvt es s = Some s' \<and> server_inv s'"
proof (induction es arbitrary: s)
  case Nil
  then show ?case by simp
next
  case (Cons e es)
  from Cons.prems(2) obtain r s1 where st: "step cvt e s = Some (r, s1)"
    and e: "engine_ok e s" and o: "obeys cvt es s1"
    by (auto split: option.splits)
  from inv_step [OF Cons.prems(1) e st] have "server_inv s1" .
  from Cons.IH [OF this o] st show ?case by simp
qed

lemma heap_inv:
  assumes "server_inv s"
  shows "0 \<le> DownloadedBytes (heap s a) \<and> DownloadedBytes (heap s a) \<le> TotalSizeBytes (heap s a) \<and>
         (TotalSizeBytes (heap s a) = 0 \<longrightarrow> Progress (heap s a) = 0)"
proof (cases "goroutines s a")
  case None
  with server_invD(2) [OF assms] show ?thesis by (simp add: zeroProgress_def)
next
  case (Some w)
  with server_invD(1) [OF assms] show ?thesis by (simp add: worker_inv_def)
qed

lemma loop_read_step:
  assumes g: "goroutines s k = Some w" and pc: "w_pc w = Loop" and fs: "w_files w \<noteq> []"
    and nc: "\<not> cancel_pending k s"
  shows "step cvt (Worker k (ReadResult 0 err wok)) s =
           (if err = OtherErr then Some (Internal, returned k w True s) else Some (Internal, s))"
proof -
  from fs obtain f fs' where f: "w_files w = f # fs'" by (cases "w_files w") auto
  have "s\<lparr>goroutines := (goroutines s)(k \<mapsto> w)\<rparr> = s" using g by (simp add: fun_upd_idem)
  then show ?thesis using g pc f nc
    by (simp add: step_def worker_step_def downloadFile_iter_def Let_def)
qed

text \<open>
  Claim C1 (the code diverges from it). In \<open>downloadFile\<close> the \<open>break\<close> under
  \<open>if err == io.EOF\<close> stands inside \<open>select\<close>, so it ends the \<open>select\<close> statement and not the
  \<open>for\<close>: the loop runs again, the next \<open>Read\<close> reports end-of-stream again, and so on. For a
  goroutine in its read loop with no cancellation pending: a read that reports \<open>io.EOF\<close>
  (with or without bytes) is taken, leaves the goroutine in the loop on the same file and
  writes nothing to \<open>completedFiles\<close>; any number of end-of-stream reads leave the state as
  it is; and the only steps that take the goroutine out of the loop are a read error and
  a write error, both of which end \<open>downloadTorrent\<close> with an error.
\<close>

theorem eof_does_not_end_read_loop:
  assumes g: "goroutines s k = Some w" and pc: "w_pc w = Loop" and fs: "w_files w \<noteq> []"
    and nc: "\<not> cancel_pending k s"
  shows "(\<exists>s'. step cvt (Worker k (ReadResult n EOF True)) s = Some (Internal, s') \<and>
               goroutines s' k = Some (w\<lparr>w_pos := w_pos w + int n\<rparr>) \<and>
               completedFiles s' = completedFiles s \<and> mu s' = mu s) \<and>
         run cvt (replicate m (Worker k (ReadResult 0 EOF True))) s = Some s \<and>
         (\<forall>inp r s' w'. step cvt (Worker k inp) s = Some (r, s') \<and>
              goroutines s' k = Some w' \<and> w_pc w' \<noteq> Loop \<longrightarrow>
            (\<exists>n err wok. inp = ReadResult n err wok \<and> (err = OtherErr \<or> 0 < n \<and> \<not> wok)) \<and>
            w_pc w' = Cleanup \<and> logs s' = logs s @ [ErrorDownloading] \<and>
            completedFiles s' = completedFiles s)"
proof -
  from fs obtain f fs' where f: "w_files w = f # fs'" by (cases "w_files w") auto
  have a: "\<exists>s'. step cvt (Worker k (ReadResult n EOF True)) s = Some (Internal, s') \<and>
               goroutines s' k = Some (w\<lparr>w_pos := w_pos w + int n\<rparr>) \<and>
               completedFiles s' = completedFiles s \<and> mu s' = mu s"
    using g pc f nc
    by (simp add: step_def worker_step_def downloadFile_iter_def Let_def)
  have one: "step cvt (Worker k (ReadResult 0 EOF True)) s = Some (Internal, s)"
    using loop_read_step [OF g pc fs nc, of cvt EOF True] by simp
  have b: "run cvt (replicate m (Worker k (ReadResult 0 EOF True))) s = Some s"
    by (induction m) (simp_all add: one)
  have c: "(\<exists>n err wok. inp = ReadResult n err wok \<and> (err = OtherErr \<or> 0 < n \<and> \<not> wok)) \<and>
            w_pc w' = Cleanup \<and> logs s' = logs s @ [ErrorDownloading] \<and>
            completedFiles s' = completedFiles s"
    if "step cvt (Worker k inp) s = Some (r, s') \<and> goroutines s' k = Some w' \<and> w_pc w' \<noteq> Loop"
    for inp r s' w'
    using that g pc f nc
    by (cases inp)
       (auto simp: step_def worker_step_def downloadFile_iter_def cancel_pending_def Let_def
          returned_def split: lock.splits if_splits)
  have c': "\<forall>inp r s' w'. step cvt (Worker k inp) s = Some (r, s') \<and>
              goroutines s' k = Some w' \<and> w_pc w' \<noteq> Loop \<longrightarrow>
            (\<exists>n err wok. inp = ReadResult n err wok \<and> (err = OtherErr \<or> 0 < n \<and> \<not> wok)) \<and>
            w_pc w' = Cleanup \<and> logs s' = logs s @ [ErrorDownloading] \<and>
            completedFiles s' = completedFiles s"
    by (intro allI impI) (rule c)
  show ?thesis by (rule conjI [OF a conjI [OF b c']])
qed

theorem eof_does_not_end_read_loop_witness:
  "\<exists>s s'. run cvt0 [ReqDownload ''a'' ''m'', Worker 0 (Resolved [\<lparr>fpath = ''d/x'', flength = 3\<rparr>]),
                     Worker 0 Opened] init = Some s \<and>
      step cvt0 (Worker 0 (ReadResult 3 EOF True)) s = Some (Internal, s') \<and>
      goroutines s' 0 = Some \<lparr>w_sid = ''a'', w_uri = ''m'', w_pc = Loop,
                               w_files = [\<lparr>fpath = ''d/x'', flength = 3\<rparr>], w_pos = 3\<rparr> \<and>
      completedFiles s' ''a'' = None \<and>
      run cvt0 (replicate 1000 (Worker 0 (ReadResult 0 EOF True))) s = Some s"
proof -
  obtain s where s: "run cvt0 [ReqDownload ''a'' ''m'', Worker 0 (Resolved [\<lparr>fpath = ''d/x'', flength = 3\<rparr>]),
                     Worker 0 Opened] init = Some s"
    and g: "goroutines s 0 = Some \<lparr>w_sid = ''a'', w_uri = ''m'', w_pc = Loop,
                               w_files = [\<lparr>fpath = ''d/x'', flength = 3\<rparr>], w_pos = 0\<rparr>"
    and m: "mu s = Unlocked" and c: "completedFiles s ''a'' = None"
    by (simp add: model_defs)
  from m have nc: "\<not> cancel_pending 0 s" by (simp add: cancel_pending_def)
  from eof_does_not_end_read_loop [OF g _ _ nc, of cvt0 3 1000] s c
  show ?thesis by auto
qed




text \<open>
  Claim C3 (the code diverges from it). A session whose goroutine is downloading its last
  file is cancelled: the cancel call is answered 200 and the file is removed, but the
  \<open>cancelChan\<close> branch of \<open>downloadFile\<close> returns \<open>nil\<close>, so \<open>downloadTorrent\<close> takes the file for
  finished, goes on to \<open>completedFiles[sessionID] = fileMap[sessionID]\<close> (the entry that
  \<open>cancelHandler\<close> has just deleted, hence the empty path) and the closure logs
  "Torrent downloaded successfully".
\<close>

theorem cancelled_session_recorded_completed:
  assumes "sid \<noteq> []" and "mu s = Unlocked" and "downloadMap s sid = Some k"
    and "goroutines s k = Some w" and "w_sid w = sid" and "w_pc w = Loop" and "w_files w = [f]"
  shows "\<exists>s'. run cvt [ReqCancel sid, Worker k Go, CancelResume, Worker k Go] s = Some s' \<and>
              responses cvt [ReqCancel sid, Worker k Go, CancelResume, Worker k Go] s =
                Some [Waiting, Internal, StatusOK, Internal] \<and>
              fpath f \<notin> disk s' \<and>
              completedFiles s' sid = Some [] \<and>
              logs s' = logs s @
                (if fpath f \<in> disk s then [] else [ErrorDeletingFile (fpath f)]) @
                (case fileMap s sid of None \<Rightarrow> []
                 | Some q \<Rightarrow> if q \<in> disk s - {fpath f} then [] else [ErrorDeletingFile q]) @
                [CompletedFileAdded [], DownloadedSuccessfully]"
  using assms
  by (auto simp: model_defs split: option.splits)

theorem cancelled_session_recorded_completed_witness:
  "\<exists>s s'. run cvt0 [ReqDownload ''a'' ''m'', Worker 0 (Resolved [\<lparr>fpath = ''d/x'', flength = 8\<rparr>]),
                     Worker 0 Opened, Worker 0 (ReadResult 5 NoErr True)] init = Some s \<and>
      run cvt0 [ReqCancel ''a'', Worker 0 Go, CancelResume, Worker 0 Go] s = Some s' \<and>
      responses cvt0 [ReqCancel ''a'', Worker 0 Go, CancelResume, Worker 0 Go] s =
        Some [Waiting, Internal, StatusOK, Internal] \<and>
      ''d/x'' \<notin> disk s' \<and> completedFiles s' ''a'' = Some [] \<and>
      logs s' = [AttemptingToCreate ''d/x'', ErrorDeletingFile ''d/x'', CompletedFileAdded [],
                 DownloadedSuccessfully]"
proof -
  have p: "percent cvt0 5 8 = 62" by code_simp
  obtain s where s: "run cvt0 [ReqDownload ''a'' ''m'', Worker 0 (Resolved [\<lparr>fpath = ''d/x'', flength = 8\<rparr>]),
                     Worker 0 Opened, Worker 0 (ReadResult 5 NoErr True)] init = Some s"
    and a: "''a'' \<noteq> []" and m: "mu s = Unlocked" and d: "downloadMap s ''a'' = Some 0"
    and g: "goroutines s 0 = Some \<lparr>w_sid = ''a'', w_uri = ''m'', w_pc = Loop,
                               w_files = [\<lparr>fpath = ''d/x'', flength = 8\<rparr>], w_pos = 5\<rparr>"
    and f: "fileMap s ''a'' = Some ''d/x''" and l: "logs s = [AttemptingToCreate ''d/x'']"
    and k: "disk s = {''d/x''}"
    by (simp add: model_defs advance_def wrap64_def p)
  have "\<exists>s'. run cvt0 [ReqCancel ''a'', Worker 0 Go, CancelResume, Worker 0 Go] s = Some s' \<and>
      responses cvt0 [ReqCancel ''a'', Worker 0 Go, CancelResume, Worker 0 Go] s =
        Some [Waiting, Internal, StatusOK, Internal] \<and>
      ''d/x'' \<notin> disk s' \<and> completedFiles s' ''a'' = Some [] \<and>
      logs s' = [AttemptingToCreate ''d/x'', ErrorDeletingFile ''d/x'', CompletedFileAdded [],
                 DownloadedSuccessfully]"
    using cancelled_session_recorded_completed
            [OF a m d g, of "\<lparr>fpath = ''d/x'', flength = 8\<rparr>" cvt0] f l k
    by simp
  with s show ?thesis by blast
qed






text \<open>
  Claim C6. In every state reached by events that respect the engine's contract, every
  progress record, and so every answer of \<open>progressHandler\<close>, has
  \<open>0 \<le> DownloadedBytes \<le> TotalSizeBytes\<close>; in particular once \<open>TotalSizeBytes\<close> is positive.
\<close>

theorem downloaded_le_total:
  assumes "obeys cvt es init" and "run cvt es init = Some s"
  shows "(\<forall>a. 0 \<le> DownloadedBytes (heap s a) \<and> DownloadedBytes (heap s a) \<le> TotalSizeBytes (heap s a)) \<and>
         (\<forall>sid p s'. progressHandler sid s = Some (ProgressJSON p, s') \<and> 0 < TotalSizeBytes p \<longrightarrow>
            DownloadedBytes p \<le> TotalSizeBytes p)"
proof -
  from inv_run [OF server_inv_init assms(1)] assms(2) have i: "server_inv s" by simp
  have a: "\<forall>a. 0 \<le> DownloadedBytes (heap s a) \<and> DownloadedBytes (heap s a) \<le> TotalSizeBytes (heap s a)"
    using heap_inv [OF i] by simp
  have "DownloadedBytes p \<le> TotalSizeBytes p"
    if "progressHandler sid s = Some (ProgressJSON p, s')" for sid p s'
  proof -
    from that obtain a where "p = heap s a"
      by (auto simp: progressHandler_def split: if_splits option.splits)
    with a show ?thesis by simp
  qed
  with a show ?thesis by blast
qed

theorem downloaded_le_total_witness:
  "\<exists>s. obeys cvt0 [ReqDownload ''a'' ''m'', Worker 0 (Resolved [\<lparr>fpath = ''d/x'', flength = 8\<rparr>]),
                   Worker 0 Opened, Worker 0 (ReadResult 5 NoErr True)] init \<and>
       run cvt0 [ReqDownload ''a'' ''m'', Worker 0 (Resolved [\<lparr>fpath = ''d/x'', flength = 8\<rparr>]),
                   Worker 0 Opened, Worker 0 (ReadResult 5 NoErr True)] init = Some s \<and>
       progressHandler ''a'' s =
         Some (ProgressJSON \<lparr>Progress = 62, DownloadedBytes = 5, TotalSizeBytes = 8\<rparr>, s) \<and>
       DownloadedBytes (heap s 0) \<le> TotalSizeBytes (heap s 0)"
proof -
  have p: "percent cvt0 5 8 = 62" by code_simp
  have o: "obeys cvt0 [ReqDownload ''a'' ''m'', Worker 0 (Resolved [\<lparr>fpath = ''d/x'', flength = 8\<rparr>]),
                   Worker 0 Opened, Worker 0 (ReadResult 5 NoErr True)] init"
    by (simp add: model_defs advance_def wrap64_def p read_ok_def lengths_ok_def sumLen_def)
  obtain s where s: "run cvt0 [ReqDownload ''a'' ''m'', Worker 0 (Resolved [\<lparr>fpath = ''d/x'', flength = 8\<rparr>]),
                   Worker 0 Opened, Worker 0 (ReadResult 5 NoErr True)] init = Some s"
    and b: "progressMap s ''a'' = Some 0" and c: "mu s = Unlocked"
    and d: "heap s 0 = \<lparr>Progress = 62, DownloadedBytes = 5, TotalSizeBytes = 8\<rparr>"
    by (simp add: model_defs advance_def wrap64_def p)
  from b c d have e: "progressHandler ''a'' s =
      Some (ProgressJSON \<lparr>Progress = 62, DownloadedBytes = 5, TotalSizeBytes = 8\<rparr>, s)"
    by (simp add: progressHandler_def)
  from downloaded_le_total [OF o s]
  have "DownloadedBytes (heap s 0) \<le> TotalSizeBytes (heap s 0)" by blast
  with o s e show ?thesis by blast
qed

text \<open>
  Claim C7 as stated fails: the percentage is computed in \<open>float64\<close>, and the quotient is
  rounded before it is multiplied by 100. After 29 of 100 bytes, \<open>float64(29)/float64(100)\<close>
  is the double next below 0.29, its product with 100 rounds to 28.999999999999996, and
  \<open>int(...)\<close> gives 28, where \<open>floor(29 / 100 * 100)\<close> is 29.
\<close>

theorem percentage_29_of_100:
  "advance cvt0 \<lparr>Progress = 0, DownloadedBytes = 0, TotalSizeBytes = 100\<rparr> 29 =
     \<lparr>Progress = 28, DownloadedBytes = 29, TotalSizeBytes = 100\<rparr> \<and>
   fmul (fdiv (float64_of_int 29) (float64_of_int 100)) (float64_of_int 100) =
     Finite 8162774324609023 (- 48) \<and>
   (8162774324609023 :: int) < 29 * 2 ^ 48 \<and> (29 * 100) div 100 = (29 :: int)"
proof -
  have f: "fmul (fdiv (float64_of_int 29) (float64_of_int 100)) (float64_of_int 100) =
     Finite 8162774324609023 (- 48)" by code_simp
  have "percent cvt0 29 100 = 28" by code_simp
  with f show ?thesis by (simp add: advance_def wrap64_def)
qed

text \<open>
  Claim C7, amended. Each advance of \<open>n > 0\<close> bytes (a read in the loop of \<open>downloadFile\<close>)
  adds exactly \<open>n\<close> to \<open>DownloadedBytes\<close>, as long as the sum is an \<open>int64\<close>, leaves
  \<open>TotalSizeBytes\<close> as it is, and sets the percentage to
  \<open>int(float64(DownloadedBytes) / float64(TotalSizeBytes) * 100)\<close>; \<open>progressHandler\<close> then
  reports these three values. While \<open>DownloadedBytes \<le> TotalSizeBytes \<le> 2^44\<close> that percentage
  is \<open>floor(DownloadedBytes * 100 / TotalSizeBytes)\<close> or one less. After 1500 of 3000 bytes
  the report is 3000, 1500 and 50.
\<close>

theorem advance_adds_n_and_truncates:
  assumes "goroutines s k = Some w" and "w_pc w = Loop" and "w_files w \<noteq> []"
    and "mu s = Unlocked" and "sid \<noteq> []" and "progressMap s sid = Some k"
    and "0 < n" and "0 \<le> DownloadedBytes (heap s k)"
    and "DownloadedBytes (heap s k) + int n < 2 ^ 63"
  shows "(\<exists>s'. step cvt (Worker k (ReadResult n err True)) s = Some (Internal, s') \<and>
              progressHandler sid s' =
                Some (ProgressJSON
                  \<lparr>Progress = float64_to_int cvt
                      (fmul (fdiv (float64_of_int (DownloadedBytes (heap s k) + int n))
                                  (float64_of_int (TotalSizeBytes (heap s k))))
                            (float64_of_int 100)),
                   DownloadedBytes = DownloadedBytes (heap s k) + int n,
                   TotalSizeBytes = TotalSizeBytes (heap s k)\<rparr>, s')) \<and>
         (DownloadedBytes (heap s k) + int n \<le> TotalSizeBytes (heap s k) \<and>
          TotalSizeBytes (heap s k) \<le> 2 ^ 44 \<longrightarrow>
            float64_to_int cvt
              (fmul (fdiv (float64_of_int (DownloadedBytes (heap s k) + int n))
                          (float64_of_int (TotalSizeBytes (heap s k))))
                    (float64_of_int 100))
            \<in> {100 * (DownloadedBytes (heap s k) + int n) div TotalSizeBytes (heap s k) - 1,
                100 * (DownloadedBytes (heap s k) + int n) div TotalSizeBytes (heap s k)}) \<and>
         percent cvt 1500 3000 = 50"
proof -
  have p: "percent cvt 1500 3000 = 50" by code_simp
  from assms have w: "wrap64 (DownloadedBytes (heap s k) + int n) = DownloadedBytes (heap s k) + int n"
    by (intro wrap64_id) auto
  from assms(3) obtain f fs where f: "w_files w = f # fs" by (cases "w_files w") auto
  have a: "\<exists>s'. step cvt (Worker k (ReadResult n err True)) s = Some (Internal, s') \<and>
              progressHandler sid s' =
                Some (ProgressJSON
                  \<lparr>Progress = float64_to_int cvt
                      (fmul (fdiv (float64_of_int (DownloadedBytes (heap s k) + int n))
                                  (float64_of_int (TotalSizeBytes (heap s k))))
                            (float64_of_int 100)),
                   DownloadedBytes = DownloadedBytes (heap s k) + int n,
                   TotalSizeBytes = TotalSizeBytes (heap s k)\<rparr>, s')"
    using assms f
    by (cases err)
       (simp_all add: step_def worker_step_def downloadFile_iter_def cancel_pending_def Let_def
          advance_def w percent_def progressHandler_def returned_def)
  have b: "float64_to_int cvt
              (fmul (fdiv (float64_of_int (DownloadedBytes (heap s k) + int n))
                          (float64_of_int (TotalSizeBytes (heap s k))))
                    (float64_of_int 100))
            \<in> {100 * (DownloadedBytes (heap s k) + int n) div TotalSizeBytes (heap s k) - 1,
                100 * (DownloadedBytes (heap s k) + int n) div TotalSizeBytes (heap s k)}"
    if "DownloadedBytes (heap s k) + int n \<le> TotalSizeBytes (heap s k) \<and>
          TotalSizeBytes (heap s k) \<le> 2 ^ 44"
  proof -
    from assms(7,8) have "0 < DownloadedBytes (heap s k) + int n" by simp
    from percent_floor_or_one_less [OF this, of "TotalSizeBytes (heap s k)" cvt] that
    show ?thesis by (auto simp: percent_def)
  qed
  from a b p show ?thesis by blast
qed

theorem advance_adds_n_and_truncates_witness:
  "\<exists>s s'. run cvt0 [ReqDownload ''a'' ''m'', Worker 0 (Resolved [\<lparr>fpath = ''d/x'', flength = 3000\<rparr>]),
                     Worker 0 Opened, Worker 0 (ReadResult 1000 NoErr True)] init = Some s \<and>
      step cvt0 (Worker 0 (ReadResult 500 NoErr True)) s = Some (Internal, s') \<and>
      progressHandler ''a'' s' =
        Some (ProgressJSON \<lparr>Progress = 50, DownloadedBytes = 1500, TotalSizeBytes = 3000\<rparr>, s')"
proof -
  have p: "percent cvt0 1000 3000 = 33" by code_simp
  obtain s where s: "run cvt0 [ReqDownload ''a'' ''m'', Worker 0 (Resolved [\<lparr>fpath = ''d/x'', flength = 3000\<rparr>]),
                     Worker 0 Opened, Worker 0 (ReadResult 1000 NoErr True)] init = Some s"
    and m: "mu s = Unlocked" and pm: "progressMap s ''a'' = Some 0"
    and g: "goroutines s 0 = Some \<lparr>w_sid = ''a'', w_uri = ''m'', w_pc = Loop,
                               w_files = [\<lparr>fpath = ''d/x'', flength = 3000\<rparr>], w_pos = 1000\<rparr>"
    and h: "heap s 0 = \<lparr>Progress = 33, DownloadedBytes = 1000, TotalSizeBytes = 3000\<rparr>"
    by (simp add: model_defs advance_def wrap64_def p)
  from advance_adds_n_and_truncates [OF g _ _ m _ pm, of 500 cvt0 NoErr] h
  obtain s' where "step cvt0 (Worker 0 (ReadResult 500 NoErr True)) s = Some (Internal, s')"
    "progressHandler ''a'' s' =
        Some (ProgressJSON \<lparr>Progress = 50, DownloadedBytes = 1500, TotalSizeBytes = 3000\<rparr>, s')"
    by (auto simp: percent_def)
  with s show ?thesis by blast
qed

text \<open>
  Claim C8. When \<open>progressMap\<close> already has an entry for the SessionID, \<open>downloadHandler\<close>
  (called with \<open>mu\<close> free) deletes it and registers a freshly allocated record with all
  three fields 0; \<open>progressHandler\<close> called right after it reports that record, so
  \<open>DownloadedBytes = 0\<close>.
\<close>

theorem restart_resets_progress:
  assumes "sessionID \<noteq> []" and "progressMap s sessionID = Some p" and "mu s = Unlocked"
  shows "\<exists>s1. downloadHandler sessionID magnetURI s = Some (StatusOK, s1) \<and>
              progressMap s1 sessionID = Some (nxt s) \<and>
              progressHandler sessionID s1 =
                Some (ProgressJSON \<lparr>Progress = 0, DownloadedBytes = 0, TotalSizeBytes = 0\<rparr>, s1)"
  using assms by (simp add: downloadHandler_def progressHandler_def zeroProgress_def Let_def)

theorem restart_resets_progress_witness:
  "\<exists>s s1. run cvt0 [ReqDownload ''a'' ''m'', Worker 0 (Resolved [\<lparr>fpath = ''d/x'', flength = 8\<rparr>]),
                     Worker 0 Opened, Worker 0 (ReadResult 5 NoErr True)] init = Some s \<and>
          progressHandler ''a'' s =
            Some (ProgressJSON \<lparr>Progress = 62, DownloadedBytes = 5, TotalSizeBytes = 8\<rparr>, s) \<and>
          downloadHandler ''a'' ''m2'' s = Some (StatusOK, s1) \<and>
          progressHandler ''a'' s1 =
            Some (ProgressJSON \<lparr>Progress = 0, DownloadedBytes = 0, TotalSizeBytes = 0\<rparr>, s1)"
proof -
  have p: "percent cvt0 5 8 = 62" by code_simp
  obtain s where s: "run cvt0 [ReqDownload ''a'' ''m'', Worker 0 (Resolved [\<lparr>fpath = ''d/x'', flength = 8\<rparr>]),
                     Worker 0 Opened, Worker 0 (ReadResult 5 NoErr True)] init = Some s"
    and a: "''a'' \<noteq> []" and b: "progressMap s ''a'' = Some 0" and c: "mu s = Unlocked"
    and d: "heap s 0 = \<lparr>Progress = 62, DownloadedBytes = 5, TotalSizeBytes = 8\<rparr>"
    by (simp add: model_defs advance_def wrap64_def p)
  from b c d have e: "progressHandler ''a'' s =
      Some (ProgressJSON \<lparr>Progress = 62, DownloadedBytes = 5, TotalSizeBytes = 8\<rparr>, s)"
    by (simp add: progressHandler_def)
  from restart_resets_progress [OF a b c, of "''m2''"] obtain s1 where
    "downloadHandler ''a'' ''m2'' s = Some (StatusOK, s1)"
    "progressHandler ''a'' s1 =
       Some (ProgressJSON \<lparr>Progress = 0, DownloadedBytes = 0, TotalSizeBytes = 0\<rparr>, s1)"
    by blast
  with s e show ?thesis by blast
qed

lemma worker_step_goroutines:
  assumes "worker_step cvt k inp s = Some s'"
  shows "\<exists>w w'. goroutines s k = Some w \<and> goroutines s' = (goroutines s)(k \<mapsto> w') \<and>
           (w_pc w' = Complete \<and> w_pc w \<noteq> Complete \<longrightarrow>
              inp = Resolved [] \<and> w_pc w = Resolve \<or>
              inp = Go \<and> w_pc w = Loop \<and> cancel_pending k s)"
proof -
  from assms obtain w where w: "goroutines s k = Some w"
    by (auto simp: worker_step_def split: option.splits)
  show ?thesis
  proof (cases "w_pc w")
    case Resolve
    with assms w show ?thesis
      by (auto simp: worker_step_def downloadTorrent_resolve_def split: input.splits if_splits)
  next
    case Open
    with assms w show ?thesis
      by (auto simp: worker_step_def downloadFile_open_def Let_def split: input.splits list.splits)
  next
    case Loop
    with assms w show ?thesis
      by (auto simp: worker_step_def downloadFile_iter_def file_done_def cancel_pending_def Let_def
               split: input.splits list.splits lock.splits if_splits)
  next
    case Complete
    with assms w show ?thesis
      by (auto simp: worker_step_def downloadTorrent_complete_def Let_def split: if_splits)
  next
    case Cleanup
    with assms w show ?thesis
      by (auto simp: worker_step_def goroutine_cleanup_def split: if_splits)
  next
    case Exited
    with assms w show ?thesis by (simp add: worker_step_def)
  qed
qed

lemma handler_goroutines:
  "progressHandler sid s = Some (r, s') \<Longrightarrow> goroutines s' = goroutines s"
  "cancelHandler sid s = Some (r, s') \<Longrightarrow> goroutines s' = goroutines s"
  "cancelHandler_resume s = Some (r, s') \<Longrightarrow> goroutines s' = goroutines s"
  "completedHandler s = Some (r, s') \<Longrightarrow> goroutines s' = goroutines s"
  "downloadHandler sid uri s = Some (r, s') \<Longrightarrow>
     goroutines s' = goroutines s \<or>
     goroutines s' = (goroutines s)
       (nxt s \<mapsto> \<lparr>w_sid = sid, w_uri = uri, w_pc = Resolve, w_files = [], w_pos = 0\<rparr>)"
  by (auto simp: progressHandler_def downloadHandler_def cancelHandler_def
        cancelHandler_resume_def completedHandler_def Let_def
      split: if_splits option.splits lock.splits)

lemma enters_Complete:
  assumes st: "step cvt e s = Some (r, s')" and g: "goroutines s k = Some w"
    and pc: "w_pc w \<noteq> Complete" and g': "goroutines s' k = Some w'" and pc': "w_pc w' = Complete"
  shows "e = Worker k (Resolved []) \<and> w_pc w = Resolve \<or>
         e = Worker k Go \<and> w_pc w = Loop \<and> cancel_pending k s"
proof (cases e)
  case (Worker k' inp)
  with st have ws: "worker_step cvt k' inp s = Some s'" by (auto simp: step_def)
  from worker_step_goroutines [OF ws] obtain v v' where
    v: "goroutines s k' = Some v" "goroutines s' = (goroutines s)(k' \<mapsto> v')"
    and c: "w_pc v' = Complete \<and> w_pc v \<noteq> Complete \<longrightarrow>
              inp = Resolved [] \<and> w_pc v = Resolve \<or>
              inp = Go \<and> w_pc v = Loop \<and> cancel_pending k' s" by blast
  show ?thesis
  proof (cases "k' = k")
    case True
    with v g g' have "v = w" "v' = w'" by simp_all
    with c pc pc' True Worker show ?thesis by simp
  next
    case False
    with v g g' have "w' = w" by simp
    with pc pc' show ?thesis by simp
  qed
next
  case (ReqProgress sid)
  with st have "goroutines s' = goroutines s" by (auto simp: step_def dest: handler_goroutines)
  with g g' pc pc' show ?thesis by simp
next
  case (ReqDownload sid uri)
  with st have "goroutines s' = goroutines s \<or>
     goroutines s' = (goroutines s)
       (nxt s \<mapsto> \<lparr>w_sid = sid, w_uri = uri, w_pc = Resolve, w_files = [], w_pos = 0\<rparr>)"
    by (auto simp: step_def dest: handler_goroutines(5))
  with g g' pc pc' show ?thesis by (auto split: if_splits)
next
  case (ReqCancel sid)
  with st have "goroutines s' = goroutines s" by (auto simp: step_def dest: handler_goroutines)
  with g g' pc pc' show ?thesis by simp
next
  case ReqCompleted
  with st have "goroutines s' = goroutines s" by (auto simp: step_def dest: handler_goroutines)
  with g g' pc pc' show ?thesis by simp
next
  case CancelResume
  with st have "goroutines s' = goroutines s" by (auto simp: step_def dest: handler_goroutines)
  with g g' pc pc' show ?thesis by simp
qed

lemma index_written_at_Complete:
  assumes st: "step cvt e s = Some (r, s')" and ne: "completedFiles s' \<noteq> completedFiles s"
  shows "\<exists>k w. e = Worker k Go \<and> goroutines s k = Some w \<and> w_pc w = Complete"
proof (cases e)
  case (Worker k inp)
  with st have "worker_step cvt k inp s = Some s'" by (auto simp: step_def)
  from worker_step_completedFiles [OF this] ne Worker show ?thesis by blast
qed (use st ne in \<open>auto simp: step_def dest: handler_completedFiles\<close>)

lemma index_keeps_entries:
  assumes st: "step cvt e s = Some (r, s')"
  shows "dom (completedFiles s) \<subseteq> dom (completedFiles s')"
proof (cases e)
  case (Worker k inp)
  with st have "worker_step cvt k inp s = Some s'" by (auto simp: step_def)
  from worker_step_completedFiles [OF this] show ?thesis by auto
qed (use st in \<open>auto simp: step_def dest: handler_completedFiles\<close>)

text \<open>
  Claim C9 (the code diverges from it in its first part). What holds: an entry of
  \<open>completedFiles\<close> is written by one step only, the goroutine's at \<open>Complete\<close> (after the
  loop over the files of \<open>downloadTorrent\<close>), which is enabled whenever \<open>mu\<close> is free; no step
  removes an entry; and the goroutine's terminal cleanup, enabled whenever \<open>mu\<close> is free,
  deletes the session's entries of \<open>progressMap\<close>, \<open>downloadMap\<close> and \<open>fileMap\<close>, leaves
  \<open>completedFiles\<close> as it is, and \<open>completedHandler\<close> returns the whole index afterwards.
  What does not hold: a goroutine comes to \<open>Complete\<close> in two ways only, by a torrent
  without files or by taking a cancellation signal in the read loop of its last file;
  the entry is created for a cancelled session, not for one whose transfers finished.
\<close>

theorem completed_index_written_on_cancel:
  "(\<forall>k w. goroutines s k = Some w \<and> w_pc w = Cleanup \<and> mu s = Unlocked \<longrightarrow>
      (\<exists>s'. step cvt (Worker k Go) s = Some (Internal, s') \<and>
            progressMap s' = (progressMap s)(w_sid w := None) \<and>
            downloadMap s' = (downloadMap s)(w_sid w := None) \<and>
            fileMap s' = (fileMap s)(w_sid w := None) \<and>
            completedFiles s' = completedFiles s \<and>
            completedHandler s' = Some (CompletedJSON (completedFiles s), s'))) \<and>
   (\<forall>k w. goroutines s k = Some w \<and> w_pc w = Complete \<and> mu s = Unlocked \<longrightarrow>
      (\<exists>s'. step cvt (Worker k Go) s = Some (Internal, s') \<and>
            completedFiles s' = (completedFiles s)
              (w_sid w \<mapsto> (case fileMap s (w_sid w) of None \<Rightarrow> [] | Some q \<Rightarrow> q)))) \<and>
   (\<forall>e r s'. step cvt e s = Some (r, s') \<and> completedFiles s' \<noteq> completedFiles s \<longrightarrow>
      (\<exists>k w. e = Worker k Go \<and> goroutines s k = Some w \<and> w_pc w = Complete)) \<and>
   (\<forall>e r s'. step cvt e s = Some (r, s') \<longrightarrow>
      dom (completedFiles s) \<subseteq> dom (completedFiles s')) \<and>
   (\<forall>e r s' k w w'. step cvt e s = Some (r, s') \<and> goroutines s k = Some w \<and>
        w_pc w \<noteq> Complete \<and> goroutines s' k = Some w' \<and> w_pc w' = Complete \<longrightarrow>
      e = Worker k (Resolved []) \<and> w_pc w = Resolve \<or>
      e = Worker k Go \<and> w_pc w = Loop \<and> cancel_pending k s)"
proof -
  have a: "\<forall>k w. goroutines s k = Some w \<and> w_pc w = Cleanup \<and> mu s = Unlocked \<longrightarrow>
      (\<exists>s'. step cvt (Worker k Go) s = Some (Internal, s') \<and>
            progressMap s' = (progressMap s)(w_sid w := None) \<and>
            downloadMap s' = (downloadMap s)(w_sid w := None) \<and>
            fileMap s' = (fileMap s)(w_sid w := None) \<and>
            completedFiles s' = completedFiles s \<and>
            completedHandler s' = Some (CompletedJSON (completedFiles s), s'))"
    by (simp add: step_cleanup completedHandler_def)
  have b: "\<forall>k w. goroutines s k = Some w \<and> w_pc w = Complete \<and> mu s = Unlocked \<longrightarrow>
      (\<exists>s'. step cvt (Worker k Go) s = Some (Internal, s') \<and>
            completedFiles s' = (completedFiles s)
              (w_sid w \<mapsto> (case fileMap s (w_sid w) of None \<Rightarrow> [] | Some q \<Rightarrow> q)))"
    by (simp add: step_complete)
  have c: "\<forall>e r s'. step cvt e s = Some (r, s') \<and> completedFiles s' \<noteq> completedFiles s \<longrightarrow>
      (\<exists>k w. e = Worker k Go \<and> goroutines s k = Some w \<and> w_pc w = Complete)"
    by (intro allI impI) (erule conjE, rule index_written_at_Complete)
  have d: "\<forall>e r s'. step cvt e s = Some (r, s') \<longrightarrow>
      dom (completedFiles s) \<subseteq> dom (completedFiles s')"
    by (intro allI impI) (rule index_keeps_entries)
  have e: "\<forall>e r s' k w w'. step cvt e s = Some (r, s') \<and> goroutines s k = Some w \<and>
        w_pc w \<noteq> Complete \<and> goroutines s' k = Some w' \<and> w_pc w' = Complete \<longrightarrow>
      e = Worker k (Resolved []) \<and> w_pc w = Resolve \<or>
      e = Worker k Go \<and> w_pc w = Loop \<and> cancel_pending k s"
    by (intro allI impI) (elim conjE, rule enters_Complete)
  show ?thesis by (rule conjI [OF a conjI [OF b conjI [OF c conjI [OF d e]]]])
qed

theorem completed_index_written_on_cancel_witness:
  "\<exists>s s1 s2.
     run cvt0 [ReqDownload ''a'' ''m'', Worker 0 (Resolved [\<lparr>fpath = ''d/x'', flength = 8\<rparr>]),
               Worker 0 Opened, Worker 0 (ReadResult 5 NoErr True),
               ReqCancel ''a'', Worker 0 Go, CancelResume,
               ReqDownload ''b'' ''n'', Worker 2 (Resolved [\<lparr>fpath = ''d/y'', flength = 4\<rparr>]),
               Worker 2 Opened, Worker 2 (ReadResult 0 OtherErr True)] init = Some s \<and>
     completedFiles s ''a'' = None \<and> fileMap s ''b'' = Some ''d/y'' \<and>
     progressMap s ''b'' = Some 2 \<and> downloadMap s ''b'' = Some 2 \<and>
     step cvt0 (Worker 0 Go) s = Some (Internal, s1) \<and>
     completedFiles s1 ''a'' = Some [] \<and>
     step cvt0 (Worker 2 Go) s1 = Some (Internal, s2) \<and>
     progressMap s2 ''b'' = None \<and> downloadMap s2 ''b'' = None \<and> fileMap s2 ''b'' = None \<and>
     completedFiles s2 ''a'' = Some [] \<and>
     completedHandler s2 = Some (CompletedJSON (completedFiles s1), s2)"
proof -
  have p: "percent cvt0 5 8 = 62" by code_simp
  obtain s where s: "run cvt0 [ReqDownload ''a'' ''m'', Worker 0 (Resolved [\<lparr>fpath = ''d/x'', flength = 8\<rparr>]),
               Worker 0 Opened, Worker 0 (ReadResult 5 NoErr True),
               ReqCancel ''a'', Worker 0 Go, CancelResume,
               ReqDownload ''b'' ''n'', Worker 2 (Resolved [\<lparr>fpath = ''d/y'', flength = 4\<rparr>]),
               Worker 2 Opened, Worker 2 (ReadResult 0 OtherErr True)] init = Some s"
    and m: "mu s = Unlocked"
    and g0: "goroutines s 0 = Some \<lparr>w_sid = ''a'', w_uri = ''m'', w_pc = Complete,
                               w_files = [], w_pos = 5\<rparr>"
    and g2: "goroutines s 2 = Some \<lparr>w_sid = ''b'', w_uri = ''n'', w_pc = Cleanup,
                               w_files = [\<lparr>fpath = ''d/y'', flength = 4\<rparr>], w_pos = 0\<rparr>"
    and ca: "completedFiles s ''a'' = None" and fa: "fileMap s ''a'' = None"
    and fb: "fileMap s ''b'' = Some ''d/y''"
    and pb: "progressMap s ''b'' = Some 2" and db: "downloadMap s ''b'' = Some 2"
    by (simp add: model_defs advance_def wrap64_def p)
  have pc0: "w_pc \<lparr>w_sid = ''a'', w_uri = ''m'', w_pc = Complete, w_files = [], w_pos = 5\<rparr> = Complete"
    and pc2: "w_pc \<lparr>w_sid = ''b'', w_uri = ''n'', w_pc = Cleanup,
                 w_files = [\<lparr>fpath = ''d/y'', flength = 4\<rparr>], w_pos = 0\<rparr> = Cleanup"
    by simp_all
  note t = completed_index_written_on_cancel [of s cvt0]
  from t [THEN conjunct2, THEN conjunct1, rule_format, OF conjI [OF g0 conjI [OF pc0 m]]]
  obtain s1 where s1: "step cvt0 (Worker 0 Go) s = Some (Internal, s1)"
    and c1: "completedFiles s1 = (completedFiles s)(''a'' \<mapsto> [])"
    using fa by auto
  from s1 g0 g2 m have m1: "mu s1 = Unlocked"
    and g21: "goroutines s1 2 = Some \<lparr>w_sid = ''b'', w_uri = ''n'', w_pc = Cleanup,
                               w_files = [\<lparr>fpath = ''d/y'', flength = 4\<rparr>], w_pos = 0\<rparr>"
    by (auto simp: step_complete)
  note t1 = completed_index_written_on_cancel [of s1 cvt0]
  from t1 [THEN conjunct1, rule_format, OF conjI [OF g21 conjI [OF pc2 m1]]]
  obtain s2 where s2: "step cvt0 (Worker 2 Go) s1 = Some (Internal, s2)"
    and e: "progressMap s2 ''b'' = None" "downloadMap s2 ''b'' = None" "fileMap s2 ''b'' = None"
      "completedFiles s2 = completedFiles s1"
      "completedHandler s2 = Some (CompletedJSON (completedFiles s1), s2)"
    by auto
  from c1 e have "completedFiles s1 ''a'' = Some []" "completedFiles s2 ''a'' = Some []" by simp_all
  with s ca fb pb db s1 s2 e show ?thesis by blast
qed

text \<open>
  Claim C10. A progress, download or cancel request whose \<open>sessionID\<close> is empty is answered
  400 "sessionID is required", whatever the state (the check stands before \<open>mu.Lock()\<close>),
  and the state, with all four maps, is returned unchanged.
\<close>

theorem empty_sessionID_rejected:
  "progressHandler [] s = Some (HttpError 400 ''sessionID is required'', s) \<and>
   downloadHandler [] magnetURI s = Some (HttpError 400 ''sessionID is required'', s) \<and>
   cancelHandler [] s = Some (HttpError 400 ''sessionID is required'', s) \<and>
   step cvt (ReqProgress []) s = Some (HttpError 400 ''sessionID is required'', s) \<and>
   step cvt (ReqDownload [] magnetURI) s = Some (HttpError 400 ''sessionID is required'', s) \<and>
   step cvt (ReqCancel []) s = Some (HttpError 400 ''sessionID is required'', s)"
  by (simp add: progressHandler_def downloadHandler_def cancelHandler_def step_def)

theorem empty_sessionID_rejected_witness:
  "progressHandler [] init = Some (HttpError 400 ''sessionID is required'', init) \<and>
   downloadHandler [] ''m'' init = Some (HttpError 400 ''sessionID is required'', init) \<and>
   cancelHandler [] init = Some (HttpError 400 ''sessionID is required'', init)"
  using empty_sessionID_rejected [of init "''m''" cvt0] by simp

end
